theory Spec2Isabelle
  imports Main "HOL-Library.Sublist"
begin

section \<open>JavaScript values\<close>

text \<open>
  The command-line tool of \<^verbatim>\<open>src/index.js\<close> asks for a project name, a framework and a
  variant, and copies the directory \<^verbatim>\<open>template-<variant>\<close> into the new project.

  A string is a list of code units below 256. The values that flow through the
  option parser, the question loop and the \<^verbatim>\<open>||\<close> and \<^verbatim>\<open>&&\<close> operators of \<^verbatim>\<open>init\<close> are
  \<^verbatim>\<open>undefined\<close>, booleans, numbers (integers only here), strings and the framework
  objects of the catalog.
\<close>

datatype color = Green | Blue | Yellow | Cyan

record variant =
  name :: string
  display :: string
  color :: color

record framework = variant +
  variants :: "variant list option"

datatype jsval = JUndefined | JBool bool | JNum int | JStr string | JFramework framework

fun truthy :: "jsval \<Rightarrow> bool" where
  "truthy JUndefined = False"
| "truthy (JBool b) = b"
| "truthy (JNum n) = (n \<noteq> 0)"
| "truthy (JStr s) = (s \<noteq> [])"
| "truthy (JFramework f) = True"

text \<open>\<^verbatim>\<open>a || b\<close>\<close>

definition js_or :: "jsval \<Rightarrow> jsval \<Rightarrow> jsval" where
  "js_or a b = (if truthy a then a else b)"

fun digits :: "nat \<Rightarrow> string" where
  "digits n =
     (if n < 10 then [char_of (48 + n)]
      else digits (n div 10) @ [char_of (48 + n mod 10)])"

text \<open>The string a value becomes inside a template literal.\<close>

fun to_string :: "jsval \<Rightarrow> string" where
  "to_string JUndefined = ''undefined''"
| "to_string (JBool b) = (if b then ''true'' else ''false'')"
| "to_string (JNum n) = (if n < 0 then CHR ''-'' # digits (nat (- n)) else digits (nat n))"
| "to_string (JStr s) = s"
| "to_string (JFramework f) = ''[object Object]''"

section \<open>The catalog\<close>

definition FRAMEWORKS :: "framework list" where
  "FRAMEWORKS =
    [\<lparr>name = ''vue'', display = ''Vue'', color = Green,
       variants = Some
         [\<lparr>name = ''vue-ts'', display = ''TypeScript'', color = Blue\<rparr>,
          \<lparr>name = ''vue'', display = ''JavaScript'', color = Yellow\<rparr>]\<rparr>,
     \<lparr>name = ''react'', display = ''React'', color = Cyan,
       variants = Some
         [\<lparr>name = ''react-ts'', display = ''TypeScript'', color = Blue\<rparr>,
          \<lparr>name = ''react-swc-ts'', display = ''TypeScript + SWC'', color = Blue\<rparr>,
          \<lparr>name = ''react'', display = ''JavaScript'', color = Yellow\<rparr>,
          \<lparr>name = ''react-swc'', display = ''JavaScript + SWC'', color = Yellow\<rparr>]\<rparr>]"

text \<open>
  \<^verbatim>\<open>f.variants?.map((v) => v.name)\<close> is \<^verbatim>\<open>undefined\<close> for a framework without variants,
  and \<^verbatim>\<open>a.concat(undefined)\<close> appends that one value.
\<close>

definition variant_names :: "framework \<Rightarrow> jsval list option" where
  "variant_names f = map_option (map (\<lambda>v. JStr (name v))) (variants f)"

definition js_concat :: "jsval list \<Rightarrow> jsval list option \<Rightarrow> jsval list" where
  "js_concat a b = (case b of None \<Rightarrow> a @ [JUndefined] | Some xs \<Rightarrow> a @ xs)"

definition templates_of :: "framework list \<Rightarrow> jsval list" where
  "templates_of fs = foldl js_concat [] (map variant_names fs)"

definition TEMPLATES :: "jsval list" where
  "TEMPLATES = templates_of FRAMEWORKS"

definition js_includes :: "jsval list \<Rightarrow> jsval \<Rightarrow> bool" where
  "js_includes xs x = (x \<in> set xs)"

text \<open>The variants a framework lists, none when the property is missing.\<close>

definition variants_of :: "framework \<Rightarrow> variant list" where
  "variants_of f = (case variants f of None \<Rightarrow> [] | Some vs \<Rightarrow> vs)"

text \<open>Every variant id of the catalog, framework by framework.\<close>

definition variant_ids :: "string list" where
  "variant_ids = concat (map (\<lambda>f. map name (variants_of f)) FRAMEWORKS)"

text \<open>A value that is the id of a variant of the catalog.\<close>

definition known_variant_id :: "jsval \<Rightarrow> bool" where
  "known_variant_id x = (x \<in> set (map JStr variant_ids))"

text \<open>The pairs of a catalog framework and one of its variants.\<close>

definition catalog_pairs :: "(framework \<times> variant) list" where
  "catalog_pairs = concat (map (\<lambda>f. map (Pair f) (variants_of f)) FRAMEWORKS)"

section \<open>The target directory\<close>

text \<open>
  \<^verbatim>\<open>String.prototype.trim\<close> removes white space and line terminators at both ends; below
  256 these are the code units 9 to 13, 32 and 160.
\<close>

definition is_space :: "char \<Rightarrow> bool" where
  "is_space c = (of_char c \<in> {9, 10, 11, 12, 13, 32, 160 :: nat})"

definition trim :: "string \<Rightarrow> string" where
  "trim s = rev (dropWhile is_space (rev (dropWhile is_space s)))"

text \<open>
  \<^verbatim>\<open>s.replace(/\/+$/g, '')\<close>: the matcher tries each start position from the left. A match
  at a position needs a slash there and only slashes up to the end of the input; it is
  replaced by the empty string, and nothing is left to match after it.
\<close>

fun replace_slashes :: "string \<Rightarrow> string" where
  "replace_slashes [] = []"
| "replace_slashes (c # cs) =
     (if c = CHR ''/'' \<and> list_all (\<lambda>x. x = CHR ''/'') cs then []
      else c # replace_slashes cs)"

text \<open>\<^verbatim>\<open>targetDir?.trim().replace(/\/+$/g, '')\<close>\<close>

definition formatTargetDir :: "string option \<Rightarrow> string option" where
  "formatTargetDir targetDir = map_option (\<lambda>s. replace_slashes (trim s)) targetDir"

definition defaultTargetDir :: string where
  "defaultTargetDir = ''vite-project''"

text \<open>\<^verbatim>\<open>x || defaultTargetDir\<close> for a string or \<^verbatim>\<open>undefined\<close>.\<close>

definition or_default :: "string option \<Rightarrow> string" where
  "or_default x = (case x of None \<Rightarrow> defaultTargetDir
                   | Some s \<Rightarrow> if s = [] then defaultTargetDir else s)"

text \<open>The spec's reading of the normalisation: trim, then drop every trailing slash.\<close>

definition spec_formatTargetDir :: "string \<Rightarrow> string" where
  "spec_formatTargetDir s = rev (dropWhile (\<lambda>c. c = CHR ''/'') (rev (trim s)))"

section \<open>Arguments\<close>

text \<open>
  What the option parser hands over: the positional arguments (strings, by the
  \<^verbatim>\<open>string: ['_']\<close> option) and the values of \<^verbatim>\<open>template\<close>, \<^verbatim>\<open>t\<close> and \<^verbatim>\<open>help\<close>.
\<close>

record argv =
  positional :: "string list"
  arg_template :: jsval
  arg_t :: jsval
  arg_help :: jsval

text \<open>\<^verbatim>\<open>argv._[0]\<close>\<close>

definition first_positional :: "argv \<Rightarrow> string option" where
  "first_positional a = (case positional a of [] \<Rightarrow> None | x # _ \<Rightarrow> Some x)"

definition argTargetDir :: "argv \<Rightarrow> string option" where
  "argTargetDir a = formatTargetDir (first_positional a)"

definition argTemplate :: "argv \<Rightarrow> jsval" where
  "argTemplate a = js_or (arg_template a) (arg_t a)"

section \<open>The question loop\<close>

datatype qkind = QText | QSelect

datatype response = Typed string | Chosen nat | Abort

record choice =
  title :: string
  val :: jsval

record 'st question =
  qtype :: "jsval \<Rightarrow> qkind option"
  qname :: string
  initial :: string
  choices :: "jsval \<Rightarrow> choice list"
  onState :: "string \<Rightarrow> 'st \<Rightarrow> 'st"

datatype error =
    Operation_cancelled
  | ENOENT "string list"
  | ENOTDIR "string list"
  | EEXIST "string list"
  | EISDIR "string list"
  | ERR_INVALID_ARG_TYPE string

datatype 'st prompted =
    Pending "(string \<times> jsval) list" string
  | Rejected error "(string \<times> jsval) list" string 'st
  | Answers "(string \<times> jsval) list" 'st

text \<open>
  Modelled from the spec: the interactive question-asking function (the \<^verbatim>\<open>prompts\<close>
  package, which the repository imports and does not contain). Given the ordered
  questions and the cancellation handler it returns the answers by question name, or
  invokes the handler with the open question and the answers so far. A question whose
  \<^verbatim>\<open>type\<close> is falsy is skipped; a \<^verbatim>\<open>type\<close> or \<^verbatim>\<open>choices\<close> that is a function is applied
  to the answer of the question asked last (\<^verbatim>\<open>undefined\<close> before the first). A text
  question answers the typed string, or its initial value when nothing was typed, and
  reports that value to \<^verbatim>\<open>onState\<close> (the reports of the keystrokes before it are left
  out: each assigns the same variable, and the last one stands); a select question
  answers the value of the chosen entry. The user is a script of responses, one for each question asked. When the
  script ends at an open question the loop is \<open>Pending\<close> (the tool waits for input
  indefinitely); a response that does not fit the open question gives \<open>None\<close>, such a
  script describes no run. The handler of \<^verbatim>\<open>init\<close> always throws, so the handler
  is given as the error it throws, which rejects the whole call.
\<close>

fun prompts ::
  "'st question list \<Rightarrow> error \<Rightarrow> response list \<Rightarrow> jsval \<Rightarrow> (string \<times> jsval) list \<Rightarrow> 'st
    \<Rightarrow> 'st prompted option"
where
  "prompts [] onCancel rs answer answers st = Some (Answers answers st)"
| "prompts (q # qs) onCancel rs answer answers st =
     (case qtype q answer of
        None \<Rightarrow> prompts qs onCancel rs answer answers st
      | Some k \<Rightarrow>
          (case rs of
             [] \<Rightarrow> Some (Pending answers (qname q))
           | Abort # rs' \<Rightarrow> Some (Rejected onCancel answers (qname q) st)
           | Typed s # rs' \<Rightarrow>
               (case k of
                  QText \<Rightarrow>
                    (let v = (if s = [] then initial q else s)
                     in prompts qs onCancel rs' (JStr v) (answers @ [(qname q, JStr v)])
                          (onState q v st))
                | QSelect \<Rightarrow> None)
           | Chosen i # rs' \<Rightarrow>
               (case k of
                  QText \<Rightarrow> None
                | QSelect \<Rightarrow>
                    (if i < length (choices q answer)
                     then (let v = val (choices q answer ! i)
                           in prompts qs onCancel rs' v (answers @ [(qname q, v)]) st)
                     else None))))"

text \<open>The names of the questions a call has put to the user, in order.\<close>

fun asked_questions :: "'st prompted \<Rightarrow> string list" where
  "asked_questions (Pending answers q) = map fst answers @ [q]"
| "asked_questions (Rejected e answers q st) = map fst answers @ [q]"
| "asked_questions (Answers answers st) = map fst answers"

text \<open>The answers a call has collected.\<close>

fun answers_of :: "'st prompted \<Rightarrow> (string \<times> jsval) list" where
  "answers_of (Pending answers q) = answers"
| "answers_of (Rejected e answers q st) = answers"
| "answers_of (Answers answers st) = answers"

text \<open>\<^verbatim>\<open>result.framework\<close>, \<^verbatim>\<open>result.variant\<close>\<close>

definition get_answer :: "(string \<times> jsval) list \<Rightarrow> string \<Rightarrow> jsval" where
  "get_answer answers k = (case map_of answers k of None \<Rightarrow> JUndefined | Some v \<Rightarrow> v)"

section \<open>The questions of init\<close>

text \<open>\<^verbatim>\<open>x.display || x.name\<close>\<close>

definition label :: "'a variant_scheme \<Rightarrow> string" where
  "label x = (if display x = [] then name x else display x)"

text \<open>\<^verbatim>\<open>framework.variants\<close> of any value that is not \<^verbatim>\<open>undefined\<close>.\<close>

fun get_variants :: "jsval \<Rightarrow> variant list option" where
  "get_variants (JFramework f) = variants f"
| "get_variants v = None"

text \<open>The truth value of a string or \<^verbatim>\<open>undefined\<close>.\<close>

definition truthy_str :: "string option \<Rightarrow> bool" where
  "truthy_str x = (case x of None \<Rightarrow> False | Some s \<Rightarrow> s \<noteq> [])"

text \<open>
  The three questions, in the order of the source. The state the loop threads is the
  variable \<^verbatim>\<open>targetDir\<close> of \<^verbatim>\<open>init\<close>, which the \<^verbatim>\<open>onState\<close> callback of the first
  question assigns.
\<close>

definition projectName_question :: "string option \<Rightarrow> string question" where
  "projectName_question argDir =
     \<lparr>qtype = (\<lambda>prev. if truthy_str argDir then None else Some QText),
      qname = ''projectName'',
      initial = defaultTargetDir,
      choices = (\<lambda>prev. []),
      onState = (\<lambda>v targetDir. or_default (formatTargetDir (Some v)))\<rparr>"

definition framework_question :: "jsval \<Rightarrow> string question" where
  "framework_question argT =
     \<lparr>qtype = (\<lambda>prev. if truthy argT \<and> js_includes TEMPLATES argT then None else Some QSelect),
      qname = ''framework'',
      initial = [],
      choices = (\<lambda>prev. map (\<lambda>f. \<lparr>title = label f, val = JFramework f\<rparr>) FRAMEWORKS),
      onState = (\<lambda>v targetDir. targetDir)\<rparr>"

definition variant_question :: "string question" where
  "variant_question =
     \<lparr>qtype = (\<lambda>framework. if truthy framework \<and> get_variants framework \<noteq> None
                           then Some QSelect else None),
      qname = ''variant'',
      initial = [],
      choices = (\<lambda>framework. map (\<lambda>v. \<lparr>title = label v, val = JStr (name v)\<rparr>)
                                (case get_variants framework of None \<Rightarrow> [] | Some vs \<Rightarrow> vs)),
      onState = (\<lambda>v targetDir. targetDir)\<rparr>"

definition questions :: "argv \<Rightarrow> string question list" where
  "questions a =
     [projectName_question (argTargetDir a), framework_question (argTemplate a),
      variant_question]"

section \<open>The file system\<close>

text \<open>
  The template directories belong to the installation of the tool and are only read;
  the project is written below the working directory. The model keeps the two apart:
  a template is a tree value, whose entries stand in the order \<^verbatim>\<open>readdirSync\<close> lists
  them, and the disk that is written is a map from absolute paths (lists of
  components) to what is stored there. So a destination inside the template directory
  is outside the model. An operation fails for what is on the disk: a missing parent, a
  file where a directory is needed, a directory where a file is to be stored. Failures
  that depend on more than that (permissions, space) are left out.
\<close>

datatype node = File string | Dir "(string \<times> node) list"

datatype inode = IFile string | IDir

type_synonym path = "string list"

type_synonym fs = "path \<Rightarrow> inode option"

fun is_file :: "inode option \<Rightarrow> bool" where
  "is_file (Some (IFile c)) = True"
| "is_file x = False"

definition existsSync :: "path \<Rightarrow> fs \<Rightarrow> bool" where
  "existsSync p fs = (fs p \<noteq> None)"

text \<open>
  \<^verbatim>\<open>fs.mkdirSync(p, { recursive: true })\<close> creates every missing directory on the way to
  \<^verbatim>\<open>p\<close> and accepts an existing directory; a file at \<^verbatim>\<open>p\<close> or on the way to it is an
  error, and nothing is created then.
\<close>

definition mkdirSync :: "path \<Rightarrow> fs \<Rightarrow> error option \<times> fs" where
  "mkdirSync p fs =
     (if list_ex (\<lambda>q. is_file (fs q)) (prefixes p)
      then (Some (if is_file (fs p) then EEXIST p else ENOTDIR p), fs)
      else (None, (\<lambda>q. if prefix q p \<and> fs q = None then Some IDir else fs q)))"

text \<open>
  Writing a file needs its parent directory, and fails on a directory at the target;
  otherwise the target holds the new content, whatever was there. This is the
  behaviour of both \<^verbatim>\<open>fs.copyFileSync\<close> (given the content of the source file) and
  \<^verbatim>\<open>fs.writeFileSync\<close>.
\<close>

definition store_file :: "string \<Rightarrow> path \<Rightarrow> fs \<Rightarrow> error option \<times> fs" where
  "store_file content dest fs =
     (if dest = [] then (Some (EISDIR dest), fs)
      else (case fs (butlast dest) of
              None \<Rightarrow> (Some (ENOENT dest), fs)
            | Some (IFile c) \<Rightarrow> (Some (ENOTDIR dest), fs)
            | Some IDir \<Rightarrow>
                (case fs dest of
                   Some IDir \<Rightarrow> (Some (EISDIR dest), fs)
                 | _ \<Rightarrow> (None, fs(dest \<mapsto> IFile content)))))"

definition copyFileSync :: "string \<Rightarrow> path \<Rightarrow> fs \<Rightarrow> error option \<times> fs" where
  "copyFileSync src_content dest fs = store_file src_content dest fs"

definition writeFileSync :: "path \<Rightarrow> string \<Rightarrow> fs \<Rightarrow> error option \<times> fs" where
  "writeFileSync targetPath content fs = store_file content targetPath fs"

text \<open>
  \<^verbatim>\<open>copy\<close> and \<^verbatim>\<open>copyDir\<close>: the case distinction on the source node is the test
  \<^verbatim>\<open>stat.isDirectory()\<close>, and \<open>copyDir_loop\<close> is the \<^verbatim>\<open>for\<close> loop over the entries. The
  first error ends the copy and leaves the disk as it is at that moment.
\<close>

fun copy :: "node \<Rightarrow> path \<Rightarrow> fs \<Rightarrow> error option \<times> fs"
and copyDir :: "(string \<times> node) list \<Rightarrow> path \<Rightarrow> fs \<Rightarrow> error option \<times> fs"
and copyDir_loop :: "(string \<times> node) list \<Rightarrow> path \<Rightarrow> fs \<Rightarrow> error option \<times> fs"
where
  "copy (File c) dest fs = copyFileSync c dest fs"
| "copy (Dir es) dest fs = copyDir es dest fs"
| "copyDir es destDir fs =
     (case mkdirSync destDir fs of
        (Some e, fs') \<Rightarrow> (Some e, fs')
      | (None, fs') \<Rightarrow> copyDir_loop es destDir fs')"
| "copyDir_loop [] destDir fs = (None, fs)"
| "copyDir_loop ((file, child) # es) destDir fs =
     (case copy child (destDir @ [file]) fs of
        (Some e, fs') \<Rightarrow> (Some e, fs')
      | (None, fs') \<Rightarrow> copyDir_loop es destDir fs')"

text \<open>
  \<^verbatim>\<open>renameFiles[file]\<close>: the table has the one key \<^verbatim>\<open>_gitignore\<close>, and, being an object
  literal, inherits the properties of \<^verbatim>\<open>Object.prototype\<close>, whose values are functions
  and objects.
\<close>

datatype property = Own string | Inherited | Missing

definition object_prototype_keys :: "string list" where
  "object_prototype_keys =
     [''constructor'', ''__defineGetter__'', ''__defineSetter__'', ''hasOwnProperty'',
      ''__lookupGetter__'', ''__lookupSetter__'', ''isPrototypeOf'',
      ''propertyIsEnumerable'', ''toString'', ''valueOf'', ''__proto__'',
      ''toLocaleString'']"

definition renameFiles :: "string \<Rightarrow> property" where
  "renameFiles file =
     (if file = ''_gitignore'' then Own ''.gitignore''
      else if file \<in> set object_prototype_keys then Inherited
      else Missing)"

text \<open>
  \<^verbatim>\<open>path.join(root, renameFiles[file] ?? file)\<close>; \<^verbatim>\<open>path.join\<close> throws a type error on an
  argument that is not a string.
\<close>

definition targetPath :: "path \<Rightarrow> string \<Rightarrow> error + path" where
  "targetPath root file =
     (case renameFiles file of
        Own s \<Rightarrow> Inr (root @ [s])
      | Missing \<Rightarrow> Inr (root @ [file])
      | Inherited \<Rightarrow> Inl (ERR_INVALID_ARG_TYPE file))"

text \<open>
  \<^verbatim>\<open>write(file, content)\<close>, with the entries of the template directory: the source of
  the copy is the entry called \<^verbatim>\<open>file\<close> there.
\<close>

definition write_file ::
  "path \<Rightarrow> (string \<times> node) list \<Rightarrow> string \<Rightarrow> string option \<Rightarrow> fs \<Rightarrow> error option \<times> fs"
where
  "write_file root entries file content fs =
     (case targetPath root file of
        Inl e \<Rightarrow> (Some e, fs)
      | Inr tp \<Rightarrow>
          (if truthy_str content then writeFileSync tp (the content) fs
           else (case map_of entries file of
                   None \<Rightarrow> (Some (ENOENT [file]), fs)
                 | Some n \<Rightarrow> copy n tp fs)))"

text \<open>\<^verbatim>\<open>for (const file of files) write(file)\<close>\<close>

fun write_files ::
  "path \<Rightarrow> (string \<times> node) list \<Rightarrow> string list \<Rightarrow> fs \<Rightarrow> error option \<times> fs"
where
  "write_files root entries [] fs = (None, fs)"
| "write_files root entries (file # files) fs =
     (case write_file root entries file None fs of
        (Some e, fs') \<Rightarrow> (Some e, fs')
      | (None, fs') \<Rightarrow> write_files root entries files fs')"

text \<open>\<^verbatim>\<open>fs.readdirSync(templateDir)\<close>, of what stands at the template's place.\<close>

definition readdirSync :: "string \<Rightarrow> node option \<Rightarrow> error + (string \<times> node) list" where
  "readdirSync dirname n =
     (case n of
        None \<Rightarrow> Inl (ENOENT [dirname])
      | Some (File c) \<Rightarrow> Inl (ENOTDIR [dirname])
      | Some (Dir es) \<Rightarrow> Inr es)"

text \<open>Lines 206 to 208: the root is created when it does not exist.\<close>

definition ensure_root :: "path \<Rightarrow> fs \<Rightarrow> error option \<times> fs" where
  "ensure_root root fs = (if \<not> existsSync root fs then mkdirSync root fs else (None, fs))"

text \<open>
  The materialisation, lines 206 to 213 of \<^verbatim>\<open>init\<close>: after the root, every entry of the
  template directory is written.
\<close>

definition materialize :: "path \<Rightarrow> string \<Rightarrow> node option \<Rightarrow> fs \<Rightarrow> error option \<times> fs" where
  "materialize root dirname templateDir fs =
     (case ensure_root root fs of
        (Some e, fs1) \<Rightarrow> (Some e, fs1)
      | (None, fs1) \<Rightarrow>
          (case readdirSync dirname templateDir of
             Inl e \<Rightarrow> (Some e, fs1)
           | Inr entries \<Rightarrow> write_files root entries (map fst entries) fs1))"

section \<open>Paths\<close>

text \<open>
  \<^verbatim>\<open>path.join(process.cwd(), targetDir)\<close> on a POSIX system: the pieces are joined by a
  slash and the result is normalised, dropping empty and \<^verbatim>\<open>.\<close> segments and resolving
  \<^verbatim>\<open>..\<close> against what precedes it. The working directory is an absolute, normalised
  path.
\<close>

fun segments :: "string \<Rightarrow> string \<Rightarrow> string list" where
  "segments cur [] = [cur]"
| "segments cur (c # cs) =
     (if c = CHR ''/'' then cur # segments [] cs else segments (cur @ [c]) cs)"

fun normalize :: "path \<Rightarrow> string list \<Rightarrow> path" where
  "normalize acc [] = acc"
| "normalize acc (s # ss) =
     (if s = [] \<or> s = ''.'' then normalize acc ss
      else if s = ''..'' then normalize (butlast acc) ss
      else normalize (acc @ [s]) ss)"

definition path_join :: "path \<Rightarrow> string \<Rightarrow> path" where
  "path_join dir s = normalize dir (segments [] s)"

text \<open>\<^verbatim>\<open>path.relative(from, to)\<close> of two absolute, normalised paths, as a string.\<close>

fun relative_segments :: "path \<Rightarrow> path \<Rightarrow> string list" where
  "relative_segments (a # as) (b # bs) =
     (if a = b then relative_segments as bs
      else replicate (length (a # as)) ''..'' @ (b # bs))"
| "relative_segments as bs = replicate (length as) ''..'' @ bs"

fun join_slash :: "string list \<Rightarrow> string" where
  "join_slash [] = []"
| "join_slash [s] = s"
| "join_slash (s # ss) = s @ CHR ''/'' # join_slash ss"

definition path_relative :: "path \<Rightarrow> path \<Rightarrow> string" where
  "path_relative from to = join_slash (relative_segments from to)"

section \<open>The run\<close>

text \<open>
  The lines \<^verbatim>\<open>init\<close> prints with \<^verbatim>\<open>console.log\<close>, without their colours and wording.
\<close>

datatype message =
    Log_help
  | Log_err error
  | Log_result jsval string
  | Log_scaffolding path
  | Log_done
  | Log_cd string
  | Log_npm_install
  | Log_npm_run_dev
  | Log_blank

text \<open>
  What a run leaves behind: the two output streams, the disk and the exit code of the
  process. The exit code is that of a process whose event loop drains: the value of
  \<^verbatim>\<open>process.exitCode\<close>, which starts as zero and which only the program can set.
\<close>

record world =
  stdout :: "message list"
  stderr :: "error list"
  disk :: fs
  exitCode :: nat

record env =
  cwd :: path
  install :: "string \<Rightarrow> node option"

definition log :: "message list \<Rightarrow> world \<Rightarrow> world" where
  "log xs w = w\<lparr>stdout := stdout w @ xs\<rparr>"

text \<open>Lines 106 to 154: the call of the question loop.\<close>

definition ask :: "argv \<Rightarrow> response list \<Rightarrow> string prompted option" where
  "ask a script =
     prompts (questions a) Operation_cancelled script JUndefined []
       (or_default (argTargetDir a))"

text \<open>Line 169: \<^verbatim>\<open>template = variant || argTemplate\<close>.\<close>

definition final_template :: "argv \<Rightarrow> (string \<times> jsval) list \<Rightarrow> jsval" where
  "final_template a result = js_or (get_answer result ''variant'') (argTemplate a)"

text \<open>Lines 216 to 224: the closing instructions.\<close>

definition closing :: "path \<Rightarrow> path \<Rightarrow> message list" where
  "closing dir root =
     (let cdProjectName = path_relative dir root
      in [Log_done]
         @ (if root \<noteq> dir
            then [Log_cd (if CHR '' '' \<in> set cdProjectName
                          then CHR 0x22 # cdProjectName @ [CHR 0x22] else cdProjectName)]
            else [])
         @ [Log_npm_install, Log_npm_run_dev, Log_blank])"

text \<open>
  Lines 160 to 224, what \<^verbatim>\<open>init\<close> does with the answers. The result is the error that
  leaves \<^verbatim>\<open>init\<close> uncaught, if any, and the world at that moment.
\<close>

definition scaffold ::
  "argv \<Rightarrow> env \<Rightarrow> (string \<times> jsval) list \<Rightarrow> string \<Rightarrow> world \<Rightarrow> error option \<times> world"
where
  "scaffold a e result targetDir w =
     (let variant = get_answer result ''variant'';
          root = path_join (cwd e) targetDir;
          template = final_template a result;
          w1 = log [Log_result variant targetDir, Log_scaffolding root] w;
          dirname = ''template-'' @ to_string template
      in case materialize root dirname (install e dirname) (disk w1) of
           (Some err, fs') \<Rightarrow> (Some err, w1\<lparr>disk := fs'\<rparr>)
         | (None, fs') \<Rightarrow> (None, log (closing (cwd e) root) (w1\<lparr>disk := fs'\<rparr>)))"

text \<open>
  \<^verbatim>\<open>init\<close>. The result is \<open>None\<close> when the run never ends (a question stays open) or
  the script describes no run.
\<close>

definition init :: "argv \<Rightarrow> env \<Rightarrow> response list \<Rightarrow> world \<Rightarrow> (error option \<times> world) option" where
  "init a e script w =
     (if truthy (arg_help a) then Some (None, log [Log_help] w)
      else (case ask a script of
              None \<Rightarrow> None
            | Some (Pending answers q) \<Rightarrow> None
            | Some (Rejected cancelled answers q targetDir) \<Rightarrow>
                Some (None, log [Log_err cancelled] w)
            | Some (Answers result targetDir) \<Rightarrow> Some (scaffold a e result targetDir w)))"

text \<open>
  The last statement of the module: \<^verbatim>\<open>init().catch((e) => { console.error(e) })\<close>. The
  handler prints the error; nothing sets an exit code.
\<close>

definition main :: "argv \<Rightarrow> env \<Rightarrow> response list \<Rightarrow> world \<Rightarrow> world option" where
  "main a e script w =
     (case init a e script w of
        None \<Rightarrow> None
      | Some (None, w') \<Rightarrow> Some w'
      | Some (Some err, w') \<Rightarrow> Some (w'\<lparr>stderr := stderr w' @ [err]\<rparr>))"

definition start :: "fs \<Rightarrow> world" where
  "start fs = \<lparr>stdout = [], stderr = [], disk = fs, exitCode = 0\<rparr>"

section \<open>What a copy leaves on the disk\<close>

text \<open>The disk holds the tree \<open>n\<close> at the path \<open>p\<close>: every directory and every file of it.\<close>

fun tree_at :: "fs \<Rightarrow> path \<Rightarrow> node \<Rightarrow> bool"
and trees_at :: "fs \<Rightarrow> path \<Rightarrow> (string \<times> node) list \<Rightarrow> bool"
where
  "tree_at fs p (File c) = (fs p = Some (IFile c))"
| "tree_at fs p (Dir es) = (fs p = Some IDir \<and> trees_at fs p es)"
| "trees_at fs p [] = True"
| "trees_at fs p ((file, child) # es) = (tree_at fs (p @ [file]) child \<and> trees_at fs p es)"

text \<open>A directory lists no name twice, at any depth.\<close>

fun wf_node :: "node \<Rightarrow> bool"
and wf_entries :: "(string \<times> node) list \<Rightarrow> bool"
where
  "wf_node (File c) = True"
| "wf_node (Dir es) = wf_entries es"
| "wf_entries [] = True"
| "wf_entries ((file, child) # es) =
     (file \<notin> set (map fst es) \<and> wf_node child \<and> wf_entries es)"

text \<open>The paths of the files of a tree, from its root.\<close>

fun file_paths :: "node \<Rightarrow> path list"
and entries_file_paths :: "(string \<times> node) list \<Rightarrow> path list"
where
  "file_paths (File c) = [[]]"
| "file_paths (Dir es) = entries_file_paths es"
| "entries_file_paths [] = []"
| "entries_file_paths ((file, child) # es) =
     map ((#) file) (file_paths child) @ entries_file_paths es"

text \<open>The name an entry of the template directory gets in the project.\<close>

definition dest_name :: "string \<Rightarrow> string" where
  "dest_name file = (case renameFiles file of Own s \<Rightarrow> s | Inherited \<Rightarrow> file | Missing \<Rightarrow> file)"

text \<open>
  The paths at which \<^verbatim>\<open>write(file)\<close> stores a file: the files of the entry, below the
  entry's name in the project. Then the same for the loop over the files of the
  template directory.
\<close>

definition entry_targets :: "path \<Rightarrow> (string \<times> node) list \<Rightarrow> string \<Rightarrow> path list" where
  "entry_targets root entries file =
     (case map_of entries file of
        None \<Rightarrow> []
      | Some n \<Rightarrow> map (\<lambda>p. root @ dest_name file # p) (file_paths n))"

definition write_targets :: "path \<Rightarrow> (string \<times> node) list \<Rightarrow> string list \<Rightarrow> path list" where
  "write_targets root entries files = concat (map (entry_targets root entries) files)"

definition targets :: "path \<Rightarrow> node option \<Rightarrow> path list" where
  "targets root templateDir =
     (case templateDir of
        Some (Dir entries) \<Rightarrow> write_targets root entries (map fst entries)
      | _ \<Rightarrow> [])"

text \<open>
  The spec's reading of a materialised template: every entry of the template directory
  stands in the root with its whole tree, \<^verbatim>\<open>_gitignore\<close> under the name \<^verbatim>\<open>.gitignore\<close>.
\<close>

definition materialized :: "path \<Rightarrow> (string \<times> node) list \<Rightarrow> fs \<Rightarrow> bool" where
  "materialized root entries fs =
     list_all (\<lambda>(file, n).
        tree_at fs (root @ [if file = ''_gitignore'' then ''.gitignore'' else file]) n) entries"

text \<open>The node at a path of a tree.\<close>

fun lookup_node :: "node \<Rightarrow> path \<Rightarrow> node option"
and lookup_entries :: "(string \<times> node) list \<Rightarrow> string \<Rightarrow> path \<Rightarrow> node option"
where
  "lookup_node n [] = Some n"
| "lookup_node (File c) (x # p) = None"
| "lookup_node (Dir es) (x # p) = lookup_entries es x p"
| "lookup_entries [] x p = None"
| "lookup_entries ((file, child) # es) x p =
     (if x = file then lookup_node child p else lookup_entries es x p)"

section \<open>Sample inputs\<close>

text \<open>
  A working directory \<^verbatim>\<open>/home\<close> on a disk that holds nothing else, an installation with
  the one template \<^verbatim>\<open>template-react-ts\<close>, and the arguments \<^verbatim>\<open>my-app -t react-ts\<close>.
\<close>

definition sample_fs :: fs where
  "sample_fs = [[] \<mapsto> IDir, [''home''] \<mapsto> IDir]"

definition sample_entries :: "(string \<times> node) list" where
  "sample_entries =
     [(''_gitignore'', File ''node_modules''),
      (''index.html'', File ''<div id=app></div>''),
      (''src'', Dir [(''_gitignore'', File ''dist''), (''main.ts'', File ''render()'')])]"

definition sample_template :: node where
  "sample_template = Dir sample_entries"

text \<open>A template directory with both \<^verbatim>\<open>.gitignore\<close> and \<^verbatim>\<open>_gitignore\<close>.\<close>

definition clash_entries :: "(string \<times> node) list" where
  "clash_entries =
     [(''.gitignore'', File ''dist''),
      (''_gitignore'', File ''node_modules''),
      (''src'', Dir [(''main.ts'', File ''render()'')])]"

text \<open>A disk where the project directory exists and holds two files.\<close>

definition used_fs :: fs where
  "used_fs =
     [[] \<mapsto> IDir, [''home''] \<mapsto> IDir, [''home'', ''my-app''] \<mapsto> IDir,
      [''home'', ''my-app'', ''notes.txt''] \<mapsto> IFile ''to do'',
      [''home'', ''my-app'', ''index.html''] \<mapsto> IFile ''old'']"

definition sample_env :: env where
  "sample_env =
     \<lparr>cwd = [''home''],
      install = (\<lambda>d. if d = ''template-react-ts'' then Some sample_template else None)\<rparr>"

definition sample_argv :: argv where
  "sample_argv =
     \<lparr>positional = [''my-app''], arg_template = JStr ''react-ts'', arg_t = JStr ''react-ts'',
      arg_help = JUndefined\<rparr>"

text \<open>The arguments \<^verbatim>\<open>--template bogus-name\<close>, without a directory.\<close>

definition bogus_argv :: argv where
  "bogus_argv =
     \<lparr>positional = [], arg_template = JStr ''bogus-name'', arg_t = JStr ''bogus-name'',
      arg_help = JUndefined\<rparr>"

text \<open>An installation without any template directory.\<close>

definition bare_env :: env where
  "bare_env = \<lparr>cwd = [''home''], install = (\<lambda>d. None)\<rparr>"

section \<open>The catalog is well formed\<close>

lemma variant_ids_eq:
  "variant_ids = [''vue-ts'', ''vue'', ''react-ts'', ''react-swc-ts'', ''react'', ''react-swc'']"
  by (simp add: variant_ids_def FRAMEWORKS_def variants_of_def)

lemma TEMPLATES_eq: "TEMPLATES = map JStr variant_ids"
  by (simp add: variant_ids_eq TEMPLATES_def templates_of_def FRAMEWORKS_def variant_names_def
      js_concat_def)

lemma set_catalog_pairs:
  "p \<in> set catalog_pairs \<longleftrightarrow> fst p \<in> set FRAMEWORKS \<and> snd p \<in> set (variants_of (fst p))"
  by (cases p) (auto simp: catalog_pairs_def)

lemma names_catalog_pairs: "map (\<lambda>p. name (snd p)) catalog_pairs = variant_ids"
  by (simp add: catalog_pairs_def variant_ids_def map_concat comp_def)

lemma catalog_pair_unique:
  assumes "f \<in> set FRAMEWORKS" and "v \<in> set (variants_of f)"
  shows "\<exists>!p. fst p \<in> set FRAMEWORKS \<and> snd p \<in> set (variants_of (fst p)) \<and>
           name (snd p) = name v"
proof -
  have "distinct (map (\<lambda>p. name (snd p)) catalog_pairs)"
    by (simp only: names_catalog_pairs) (simp add: variant_ids_eq)
  then have inj: "inj_on (\<lambda>p. name (snd p)) (set catalog_pairs)"
    by (simp add: distinct_map)
  have mem: "(f, v) \<in> set catalog_pairs"
    using assms by (simp add: set_catalog_pairs)
  show ?thesis
  proof (rule ex1I [of _ "(f, v)"])
    show "fst (f, v) \<in> set FRAMEWORKS \<and> snd (f, v) \<in> set (variants_of (fst (f, v))) \<and>
            name (snd (f, v)) = name v"
      using assms by simp
  next
    fix p :: "framework \<times> variant"
    assume p: "fst p \<in> set FRAMEWORKS \<and> snd p \<in> set (variants_of (fst p)) \<and>
                 name (snd p) = name v"
    then have "p \<in> set catalog_pairs" by (simp add: set_catalog_pairs)
    moreover from p have "name (snd p) = name (snd (f, v))" by simp
    ultimately show "p = (f, v)"
      using inj mem by (blast dest: inj_onD)
  qed
qed

text \<open>
  Claim C9. No two variants of the catalog share an id, whatever their frameworks; the
  flat list \<^verbatim>\<open>TEMPLATES\<close> holds exactly these ids; and every id of a variant of a catalog
  framework is found in \<^verbatim>\<open>TEMPLATES\<close> and belongs to exactly one pair of a framework and
  one of its variants.
\<close>

theorem catalog_variant_ids_unique:
  "distinct variant_ids \<and> TEMPLATES = map JStr variant_ids \<and>
   (\<forall>f\<in>set FRAMEWORKS. \<forall>v\<in>set (variants_of f).
      js_includes TEMPLATES (JStr (name v)) \<and>
      (\<exists>!p. fst p \<in> set FRAMEWORKS \<and> snd p \<in> set (variants_of (fst p)) \<and>
         name (snd p) = name v))"
proof (intro conjI ballI)
  show "distinct variant_ids" by (simp add: variant_ids_eq)
  show "TEMPLATES = map JStr variant_ids" by (rule TEMPLATES_eq)
next
  fix f v assume f: "f \<in> set FRAMEWORKS" and v: "v \<in> set (variants_of f)"
  then have "name v \<in> set variant_ids"
    unfolding variant_ids_def by auto
  then show "js_includes TEMPLATES (JStr (name v))"
    by (simp add: js_includes_def TEMPLATES_eq)
  show "\<exists>!p. fst p \<in> set FRAMEWORKS \<and> snd p \<in> set (variants_of (fst p)) \<and>
          name (snd p) = name v"
    using f v by (rule catalog_pair_unique)
qed

theorem catalog_variant_ids_unique_witness:
  "js_includes TEMPLATES (JStr ''react-swc-ts'') \<and>
   (\<exists>!p. fst p \<in> set FRAMEWORKS \<and> snd p \<in> set (variants_of (fst p)) \<and>
      name (snd p) = ''react-swc-ts'')"
proof -
  let ?f = "FRAMEWORKS ! 1"
  let ?v = "variants_of ?f ! 1"
  have f: "?f \<in> set FRAMEWORKS" by (simp add: FRAMEWORKS_def)
  have v: "?v \<in> set (variants_of ?f)" by (simp add: FRAMEWORKS_def variants_of_def)
  have n: "name ?v = ''react-swc-ts''" by (simp add: FRAMEWORKS_def variants_of_def)
  from catalog_variant_ids_unique f v
  have "js_includes TEMPLATES (JStr (name ?v)) \<and>
   (\<exists>!p. fst p \<in> set FRAMEWORKS \<and> snd p \<in> set (variants_of (fst p)) \<and>
      name (snd p) = name ?v)" by blast
  then show ?thesis by (simp only: n)
qed

section \<open>The target directory of a positional argument\<close>

lemma last_dropWhile: "dropWhile P xs \<noteq> [] \<Longrightarrow> last (dropWhile P xs) = last xs"
  by (induction xs) (auto split: if_splits)

lemma trim_surrounded:
  "\<exists>l r. s = l @ trim s @ r \<and> list_all is_space l \<and> list_all is_space r"
proof -
  let ?t = "dropWhile is_space s"
  have "rev ?t = takeWhile is_space (rev ?t) @ dropWhile is_space (rev ?t)" by simp
  then have "?t = trim s @ rev (takeWhile is_space (rev ?t))"
    unfolding trim_def by (metis rev_append rev_rev_ident)
  then have "s = takeWhile is_space s @ trim s @ rev (takeWhile is_space (rev ?t))"
    by (metis takeWhile_dropWhile_id)
  moreover have "list_all is_space (takeWhile is_space s)"
    by (auto simp: list_all_iff dest: set_takeWhileD)
  moreover have "list_all is_space (rev (takeWhile is_space (rev ?t)))"
    by (auto simp: list_all_iff dest: set_takeWhileD)
  ultimately show ?thesis by blast
qed

lemma trim_ends:
  assumes "trim s \<noteq> []"
  shows "\<not> is_space (hd (trim s)) \<and> \<not> is_space (last (trim s))"
proof -
  let ?t = "dropWhile is_space s"
  let ?u = "dropWhile is_space (rev ?t)"
  from assms have u: "?u \<noteq> []" by (simp add: trim_def)
  then have t: "?t \<noteq> []" by (cases "?t") auto
  have "last (trim s) = hd ?u" using u by (simp add: trim_def last_rev)
  moreover have "\<not> is_space (hd ?u)" using u by (rule hd_dropWhile)
  moreover have "hd (trim s) = last ?u" using u by (simp add: trim_def hd_rev)
  moreover have "last ?u = last (rev ?t)" using u by (rule last_dropWhile)
  moreover have "last (rev ?t) = hd ?t" using t by (simp add: last_rev)
  moreover have "\<not> is_space (hd ?t)" using t by (rule hd_dropWhile)
  ultimately show ?thesis by simp
qed

lemma replace_slashes_eq:
  "replace_slashes s = rev (dropWhile (\<lambda>c. c = CHR ''/'') (rev s))"
proof (induction s)
  case Nil
  then show ?case by simp
next
  case (Cons c cs)
  let ?P = "\<lambda>c. c = CHR ''/''"
  show ?case
  proof (cases "list_all ?P cs")
    case True
    then have "\<And>x. x \<in> set (rev cs) \<Longrightarrow> ?P x" by (simp add: list_all_iff)
    then have h: "dropWhile ?P (rev cs @ [c]) = dropWhile ?P [c]"
      by (rule dropWhile_append2)
    have r: "replace_slashes cs = []"
      using True by (induction cs) auto
    show ?thesis
      using True by (simp only: rev.simps h replace_slashes.simps r) simp
  next
    case False
    then obtain x where "x \<in> set (rev cs)" "\<not> ?P x" by (auto simp: list_all_iff)
    then have h: "dropWhile ?P (rev cs @ [c]) = dropWhile ?P (rev cs) @ [c]"
      by (rule dropWhile_append1)
    show ?thesis
      using False Cons.IH by (simp only: rev.simps h replace_slashes.simps) simp
  qed
qed

lemma formatTargetDir_spec: "formatTargetDir (Some s) = Some (spec_formatTargetDir s)"
  by (simp add: formatTargetDir_def spec_formatTargetDir_def replace_slashes_eq)

lemma spec_formatTargetDir_slashes:
  "\<exists>n. trim s = spec_formatTargetDir s @ replicate n CHR ''/''"
proof -
  let ?P = "\<lambda>c. c = CHR ''/''"
  have "rev (trim s) = takeWhile ?P (rev (trim s)) @ dropWhile ?P (rev (trim s))" by simp
  then have "trim s = rev (dropWhile ?P (rev (trim s))) @ rev (takeWhile ?P (rev (trim s)))"
    by (metis rev_append rev_rev_ident)
  moreover have "rev (takeWhile ?P (rev (trim s))) = replicate (length (takeWhile ?P (rev (trim s)))) CHR ''/''"
    by (rule replicate_eqI) (auto dest: set_takeWhileD)
  ultimately show ?thesis unfolding spec_formatTargetDir_def by metis
qed

lemma spec_formatTargetDir_last:
  "spec_formatTargetDir s \<noteq> [] \<Longrightarrow> last (spec_formatTargetDir s) \<noteq> CHR ''/''"
  unfolding spec_formatTargetDir_def
  by (metis (mono_tags, lifting) hd_dropWhile last_rev rev_is_Nil_conv)

lemma argTemplate_positional [simp]: "argTemplate (a\<lparr>positional := xs\<rparr>) = argTemplate a"
  by (simp add: argTemplate_def)

lemma argTargetDir_no_positional [simp]: "argTargetDir (a\<lparr>positional := []\<rparr>) = None"
  by (simp add: argTargetDir_def first_positional_def formatTargetDir_def)

lemma projectName_question_empty: "projectName_question (Some []) = projectName_question None"
  by (simp add: projectName_question_def truthy_str_def)

lemma ask_empty_dir:
  "argTargetDir a = Some [] \<Longrightarrow> ask a script = ask (a\<lparr>positional := []\<rparr>) script"
  by (simp add: ask_def questions_def projectName_question_empty or_default_def)

lemma scaffold_positional [simp]: "scaffold (a\<lparr>positional := xs\<rparr>) = scaffold a"
  by (simp add: fun_eq_iff scaffold_def final_template_def)

lemma main_empty_dir:
  assumes "argTargetDir a = Some []"
  shows "main a e script w = main (a\<lparr>positional := []\<rparr>) e script w"
  by (simp add: main_def init_def ask_empty_dir [OF assms] split: option.split prompted.split)

text \<open>
  Claim C6. The candidate target directory of a positional argument is the argument
  trimmed and then freed of all its trailing slashes: trimming removes white space on
  both sides, up to the first and the last character that is none; what is removed
  after trimming is a run of slashes, and what is left does not end in a slash. The argument
  \<^verbatim>\<open>my-app/\<close> gives \<^verbatim>\<open>my-app\<close>. When nothing is left, the run is the run without a
  positional argument: the project name is asked, with \<^verbatim>\<open>vite-project\<close> as initial value
  and as target directory until an answer replaces it.
\<close>

theorem formatTargetDir_normalises:
  "argTargetDir (a\<lparr>positional := s # rest\<rparr>) = Some (spec_formatTargetDir s) \<and>
   (\<exists>l r. s = l @ trim s @ r \<and> list_all is_space l \<and> list_all is_space r) \<and>
   (trim s \<noteq> [] \<longrightarrow> \<not> is_space (hd (trim s)) \<and> \<not> is_space (last (trim s))) \<and>
   (\<exists>n. trim s = spec_formatTargetDir s @ replicate n CHR ''/'') \<and>
   (spec_formatTargetDir s \<noteq> [] \<longrightarrow> last (spec_formatTargetDir s) \<noteq> CHR ''/'') \<and>
   argTargetDir (a\<lparr>positional := [''my-app/'']\<rparr>) = Some ''my-app'' \<and>
   (spec_formatTargetDir s = [] \<longrightarrow>
      qtype (projectName_question (argTargetDir (a\<lparr>positional := s # rest\<rparr>))) prev
        = Some QText \<and>
      initial (projectName_question (argTargetDir (a\<lparr>positional := s # rest\<rparr>)))
        = ''vite-project'' \<and>
      or_default (argTargetDir (a\<lparr>positional := s # rest\<rparr>)) = ''vite-project'' \<and>
      ask (a\<lparr>positional := s # rest\<rparr>) script = ask (a\<lparr>positional := []\<rparr>) script \<and>
      main (a\<lparr>positional := s # rest\<rparr>) e script w = main (a\<lparr>positional := []\<rparr>) e script w)"
proof (intro conjI impI)
  let ?a = "a\<lparr>positional := s # rest\<rparr>"
  show dir: "argTargetDir ?a = Some (spec_formatTargetDir s)"
    by (simp add: argTargetDir_def first_positional_def formatTargetDir_spec)
  show "\<exists>n. trim s = spec_formatTargetDir s @ replicate n CHR ''/''"
    by (rule spec_formatTargetDir_slashes)
  show "\<exists>l r. s = l @ trim s @ r \<and> list_all is_space l \<and> list_all is_space r"
    by (rule trim_surrounded)
  {
    assume "trim s \<noteq> []"
    then show "\<not> is_space (hd (trim s))" "\<not> is_space (last (trim s))"
      using trim_ends by blast+
  }
  show "argTargetDir (a\<lparr>positional := [''my-app/'']\<rparr>) = Some ''my-app''"
    by (simp add: argTargetDir_def first_positional_def formatTargetDir_def trim_def
        is_space_def)
  {
    assume "spec_formatTargetDir s \<noteq> []"
    then show "last (spec_formatTargetDir s) \<noteq> CHR ''/''" by (rule spec_formatTargetDir_last)
  }
  assume "spec_formatTargetDir s = []"
  with dir have e: "argTargetDir ?a = Some []" by simp
  show "qtype (projectName_question (argTargetDir ?a)) prev = Some QText"
    by (simp add: e projectName_question_def truthy_str_def)
  show "initial (projectName_question (argTargetDir ?a)) = ''vite-project''"
    by (simp add: projectName_question_def defaultTargetDir_def)
  show "or_default (argTargetDir ?a) = ''vite-project''"
    by (simp add: e or_default_def defaultTargetDir_def)
  show "ask ?a script = ask (a\<lparr>positional := []\<rparr>) script"
    using ask_empty_dir [OF e] by simp
  show "main ?a e script w = main (a\<lparr>positional := []\<rparr>) e script w"
    using main_empty_dir [OF e] by simp
qed

theorem formatTargetDir_normalises_witness:
  "argTargetDir (sample_argv\<lparr>positional := [''  my-app//'']\<rparr>) = Some ''my-app'' \<and>
   \<not> is_space (hd (trim ''  my-app//'')) \<and>
   last ''my-app'' \<noteq> CHR ''/'' \<and>
   spec_formatTargetDir '' / '' = [] \<and>
   main (sample_argv\<lparr>positional := ['' / '']\<rparr>) sample_env [Typed ''x''] (start sample_fs)
     = main (sample_argv\<lparr>positional := []\<rparr>) sample_env [Typed ''x''] (start sample_fs)"
proof -
  have 1: "spec_formatTargetDir ''  my-app//'' = ''my-app''"
    by (simp add: spec_formatTargetDir_def trim_def is_space_def)
  have 2: "spec_formatTargetDir '' / '' = []"
    by (simp add: spec_formatTargetDir_def trim_def is_space_def)
  from formatTargetDir_normalises [where a = sample_argv and s = "''  my-app//''" and rest = "[]"] 1
  have "argTargetDir (sample_argv\<lparr>positional := [''  my-app//'']\<rparr>) = Some ''my-app''"
    and "last ''my-app'' \<noteq> CHR ''/''" by simp_all
  moreover
  have "trim ''  my-app//'' \<noteq> []" by (simp add: trim_def is_space_def)
  with formatTargetDir_normalises [where a = sample_argv and s = "''  my-app//''" and rest = "[]"]
  have "\<not> is_space (hd (trim ''  my-app//''))" by blast
  moreover
  from formatTargetDir_normalises
    [where a = sample_argv and s = "'' / ''" and rest = "[]" and script = "[Typed ''x'']"
      and e = sample_env and w = "start sample_fs"] 2
  have "main (sample_argv\<lparr>positional := ['' / '']\<rparr>) sample_env [Typed ''x''] (start sample_fs)
     = main (sample_argv\<lparr>positional := []\<rparr>) sample_env [Typed ''x''] (start sample_fs)"
    by simp
  ultimately show ?thesis using 2 by simp
qed

section \<open>The questions that are asked\<close>

lemma framework_skipped_iff:
  "truthy x \<and> js_includes TEMPLATES x \<longleftrightarrow> known_variant_id x"
  by (auto simp: known_variant_id_def js_includes_def TEMPLATES_eq variant_ids_eq)

lemma catalog_variants:
  "f \<in> set FRAMEWORKS \<Longrightarrow> variants f = Some (variants_of f) \<and> 1 < length (variants_of f)"
  by (auto simp: FRAMEWORKS_def variants_of_def)

lemma prompts_variant:
  "prompts [variant_question] c rs prev ans st =
     (case get_variants prev of
        None \<Rightarrow> Some (Answers ans st)
      | Some vs \<Rightarrow>
          (case rs of
             [] \<Rightarrow> Some (Pending ans ''variant'')
           | Abort # rs' \<Rightarrow> Some (Rejected c ans ''variant'' st)
           | Typed s # rs' \<Rightarrow> None
           | Chosen j # rs' \<Rightarrow>
               if j < length vs
               then Some (Answers (ans @ [(''variant'', JStr (name (vs ! j)))]) st)
               else None))"
  by (cases prev) (simp_all add: variant_question_def split: option.split list.split response.split)

lemma prompts_framework:
  "prompts (framework_question x # qs) c rs prev ans st =
     (if known_variant_id x then prompts qs c rs prev ans st
      else (case rs of
              [] \<Rightarrow> Some (Pending ans ''framework'')
            | Abort # rs' \<Rightarrow> Some (Rejected c ans ''framework'' st)
            | Typed s # rs' \<Rightarrow> None
            | Chosen i # rs' \<Rightarrow>
                if i < length FRAMEWORKS
                then prompts qs c rs' (JFramework (FRAMEWORKS ! i))
                       (ans @ [(''framework'', JFramework (FRAMEWORKS ! i))]) st
                else None))"
  using framework_skipped_iff [of x]
  by (simp add: framework_question_def Let_def split: list.split response.split)

lemma prompts_projectName:
  "prompts (projectName_question d # qs) c rs prev ans st =
     (if truthy_str d then prompts qs c rs prev ans st
      else (case rs of
              [] \<Rightarrow> Some (Pending ans ''projectName'')
            | Abort # rs' \<Rightarrow> Some (Rejected c ans ''projectName'' st)
            | Chosen i # rs' \<Rightarrow> None
            | Typed s # rs' \<Rightarrow>
                (let v = (if s = [] then defaultTargetDir else s)
                 in prompts qs c rs' (JStr v) (ans @ [(''projectName'', JStr v)])
                      (or_default (formatTargetDir (Some v))))))"
  by (simp add: projectName_question_def Let_def split: list.split response.split)


lemma catalog_nth_variants [simp]:
  "i < length FRAMEWORKS \<Longrightarrow> variants (FRAMEWORKS ! i) = Some (variants_of (FRAMEWORKS ! i))"
  using catalog_variants [of "FRAMEWORKS ! i"] by simp

lemma catalog_nth_many [simp]:
  "i < length FRAMEWORKS \<Longrightarrow> Suc 0 < length (variants_of (FRAMEWORKS ! i))"
  using catalog_variants [of "FRAMEWORKS ! i"] by simp

lemma variant_name_truthy:
  "f \<in> set FRAMEWORKS \<Longrightarrow> v \<in> set (variants_of f) \<Longrightarrow> name v \<noteq> []"
  by (auto simp: FRAMEWORKS_def variants_of_def)

lemma variant_name_known:
  "f \<in> set FRAMEWORKS \<Longrightarrow> v \<in> set (variants_of f) \<Longrightarrow> known_variant_id (JStr (name v))"
  unfolding known_variant_id_def variant_ids_def by auto

lemma nth_name_mem: "j < length vs \<Longrightarrow> \<exists>v\<in>set vs. name (vs ! j) = name v"
  by (rule bexI [of _ "vs ! j"]) simp_all

text \<open>The shapes of a finished call of the question loop.\<close>

lemma ask_Answers:
  assumes "ask a script = Some (Answers result td)"
  shows "(known_variant_id (argTemplate a) \<and> map fst result \<in> {[], [''projectName'']}) \<or>
         (\<not> known_variant_id (argTemplate a) \<and>
          map fst result \<in> {[''framework'', ''variant''],
                              [''projectName'', ''framework'', ''variant'']} \<and>
          (\<exists>f\<in>set FRAMEWORKS. get_answer result ''framework'' = JFramework f \<and>
             (\<exists>v\<in>set (variants_of f). get_answer result ''variant'' = JStr (name v))))"
  using assms unfolding ask_def questions_def
  by (auto simp: prompts_projectName prompts_framework prompts_variant Let_def get_answer_def
      nth_name_mem
      simp del: prompts.simps(2)
      split: if_splits list.splits response.splits option.splits)


lemma ask_asked:
  assumes "ask a script = Some r"
  shows "(''framework'' \<in> set (asked_questions r) \<longrightarrow> \<not> known_variant_id (argTemplate a)) \<and>
         (''variant'' \<in> set (asked_questions r) \<longrightarrow>
            \<not> known_variant_id (argTemplate a) \<and>
            (\<exists>f\<in>set FRAMEWORKS. get_answer (answers_of r) ''framework'' = JFramework f \<and>
               1 < length (variants_of f)))"
  using assms unfolding ask_def questions_def
  by (auto simp: prompts_projectName prompts_framework prompts_variant Let_def get_answer_def
      catalog_variants
      simp del: prompts.simps(2)
      split: if_splits list.splits response.splits option.splits)

lemma ask_Rejected:
  assumes "ask a script = Some (Rejected err answers q td)"
  shows "err = Operation_cancelled"
  using assms unfolding ask_def questions_def
  by (auto simp: prompts_projectName prompts_framework prompts_variant Let_def
      simp del: prompts.simps(2)
      split: if_splits list.splits response.splits option.splits)

lemma prompts_Pending_Abort:
  "prompts qs c pre p ans st = Some (Pending ans' q) \<Longrightarrow>
     \<exists>st'. prompts qs c (pre @ Abort # rest) p ans st = Some (Rejected c ans' q st')"
proof (induction qs arbitrary: pre p ans st)
  case Nil
  then show ?case by simp
next
  case (Cons x qs)
  show ?case
  proof (cases "qtype x p")
    case None
    with Cons show ?thesis by simp
  next
    case (Some k)
    show ?thesis
    proof (cases pre)
      case Nil
      with Cons.prems Some show ?thesis by simp
    next
      case (Cons r rs)
      with Cons.prems Some Cons.IH show ?thesis
        by (cases r; cases k) (simp_all add: Let_def split: if_splits)
    qed
  qed
qed

lemma main_Rejected:
  assumes "\<not> truthy (arg_help a)" and "ask a script = Some (Rejected err answers q td)"
  shows "init a e script w = Some (None, w\<lparr>stdout := stdout w @ [Log_err err]\<rparr>)"
    and "main a e script w = Some (w\<lparr>stdout := stdout w @ [Log_err err]\<rparr>)"
  using assms by (simp_all add: main_def init_def log_def)

lemma get_answer_absent: "k \<notin> set (map fst answers) \<Longrightarrow> get_answer answers k = JUndefined"
  by (simp add: get_answer_def map_of_eq_None_iff [THEN iffD2])

lemma known_sample: "known_variant_id (argTemplate sample_argv)"
  by (simp add: known_variant_id_def argTemplate_def sample_argv_def js_or_def variant_ids_eq)

lemma unknown_bogus: "\<not> known_variant_id (argTemplate bogus_argv)"
  by (simp add: known_variant_id_def argTemplate_def bogus_argv_def js_or_def variant_ids_eq)

lemma ask_sample: "ask sample_argv script = Some (Answers [] ''my-app'')"
  using known_sample
  by (simp add: ask_def questions_def prompts_projectName prompts_framework prompts_variant
      del: prompts.simps(2))
    (simp add: sample_argv_def argTargetDir_def first_positional_def formatTargetDir_def
      trim_def is_space_def truthy_str_def or_default_def)

lemma ask_bogus:
  "ask bogus_argv [Typed [], Chosen 1, Chosen 3] =
     Some (Answers [(''projectName'', JStr ''vite-project''),
                    (''framework'', JFramework (FRAMEWORKS ! 1)),
                    (''variant'', JStr ''react-swc'')] ''vite-project'')"
  using unknown_bogus
  by (simp add: ask_def questions_def prompts_projectName prompts_framework prompts_variant
      del: prompts.simps(2))
    (simp add: bogus_argv_def argTargetDir_def first_positional_def formatTargetDir_def
      trim_def is_space_def truthy_str_def or_default_def defaultTargetDir_def FRAMEWORKS_def
      variants_of_def)

lemma ask_bogus_pending:
  "ask bogus_argv [Typed []] =
     Some (Pending [(''projectName'', JStr ''vite-project'')] ''framework'')"
  using unknown_bogus
  by (simp add: ask_def questions_def prompts_projectName prompts_framework prompts_variant
      del: prompts.simps(2))
    (simp add: bogus_argv_def argTargetDir_def first_positional_def formatTargetDir_def
      truthy_str_def defaultTargetDir_def)

text \<open>
  Claim C1, as amended. In every finished call of the question loop the final template
  is the variant id chosen in the variant question when that question was asked, an id
  of a variant of the chosen framework; otherwise it is the template candidate of the
  arguments. When the candidate given by \<^verbatim>\<open>--template\<close> or \<^verbatim>\<open>-t\<close> is a known variant id,
  neither the framework nor the variant question is asked and the final template is
  that candidate.
\<close>

theorem final_template_resolution:
  assumes "ask a script = Some (Answers result td)"
  shows "(''variant'' \<in> set (map fst result) \<longrightarrow>
            final_template a result = get_answer result ''variant'' \<and>
            (\<exists>f\<in>set FRAMEWORKS. get_answer result ''framework'' = JFramework f \<and>
               (\<exists>v\<in>set (variants_of f). get_answer result ''variant'' = JStr (name v)))) \<and>
         (''variant'' \<notin> set (map fst result) \<longrightarrow> final_template a result = argTemplate a) \<and>
         (known_variant_id (argTemplate a) \<longrightarrow>
            ''framework'' \<notin> set (map fst result) \<and> ''variant'' \<notin> set (map fst result) \<and>
            final_template a result = argTemplate a)"
proof -
  from ask_Answers [OF assms] show ?thesis
  proof (elim disjE conjE bexE)
    assume k: "known_variant_id (argTemplate a)"
      and r: "map fst result \<in> {[], [''projectName'']}"
    then have n: "''variant'' \<notin> set (map fst result)" "''framework'' \<notin> set (map fst result)"
      by auto
    then show ?thesis
      using k by (simp add: final_template_def get_answer_absent js_or_def del: set_map)
  next
    fix f v
    assume k: "\<not> known_variant_id (argTemplate a)"
      and r: "map fst result \<in> {[''framework'', ''variant''],
                                  [''projectName'', ''framework'', ''variant'']}"
      and f: "f \<in> set FRAMEWORKS" "get_answer result ''framework'' = JFramework f"
      and v: "v \<in> set (variants_of f)" "get_answer result ''variant'' = JStr (name v)"
    from r have n: "''variant'' \<in> set (map fst result)" by auto
    from f v have "final_template a result = JStr (name v)"
      by (simp add: final_template_def js_or_def variant_name_truthy)
    with k n f v show ?thesis by (auto simp del: set_map)
  qed
qed

theorem final_template_resolution_witness:
  "final_template bogus_argv
     [(''projectName'', JStr ''vite-project''), (''framework'', JFramework (FRAMEWORKS ! 1)),
      (''variant'', JStr ''react-swc'')] = JStr ''react-swc'' \<and>
   final_template sample_argv [] = JStr ''react-ts''"
proof -
  have "final_template sample_argv [] = argTemplate sample_argv"
    using final_template_resolution [OF ask_sample [of "[]"]] known_sample by simp
  moreover have "final_template bogus_argv
     [(''projectName'', JStr ''vite-project''), (''framework'', JFramework (FRAMEWORKS ! 1)),
      (''variant'', JStr ''react-swc'')] = JStr ''react-swc''"
    using final_template_resolution [OF ask_bogus] by (simp add: get_answer_def)
  ultimately show ?thesis
    by (simp add: argTemplate_def sample_argv_def js_or_def)
qed

text \<open>
  Claim C1 as stated fails: with the arguments \<^verbatim>\<open>my-app -t react-ts\<close>, a valid id of a
  framework with four variants, the call finishes without asking anything, whatever the
  user is ready to answer; the variant question is not shown and the final template is
  the id given by the flag.
\<close>

theorem variant_question_after_flag_counterexample:
  "known_variant_id (argTemplate sample_argv) \<and>
   argTemplate sample_argv = JStr ''react-ts'' \<and>
   ask sample_argv [Chosen 0] = Some (Answers [] ''my-app'') \<and>
   ''variant'' \<notin> set (asked_questions (Answers [] ''my-app'' :: string prompted)) \<and>
   final_template sample_argv [] = JStr ''react-ts''"
  using known_sample ask_sample [of "[Chosen 0]"]
  by (simp add: final_template_def get_answer_def js_or_def argTemplate_def sample_argv_def)


text \<open>
  Claim C5. The type of the framework question is null exactly when the template
  candidate is a known variant id, and a call that asked the question had no such
  candidate. A finished call whose candidate is not a known variant id has asked both
  the framework and the variant question, and its final template is the id of the
  chosen variant of the chosen framework, which the candidate is not.
\<close>

theorem framework_question_skipped_iff:
  "(qtype (framework_question (argTemplate a)) prev = None \<longleftrightarrow>
      known_variant_id (argTemplate a)) \<and>
   (ask a script = Some r \<longrightarrow> ''framework'' \<in> set (asked_questions r) \<longrightarrow>
      \<not> known_variant_id (argTemplate a)) \<and>
   (ask a script = Some (Answers result td) \<longrightarrow> \<not> known_variant_id (argTemplate a) \<longrightarrow>
      ''framework'' \<in> set (map fst result) \<and> ''variant'' \<in> set (map fst result) \<and>
      (\<exists>f\<in>set FRAMEWORKS. get_answer result ''framework'' = JFramework f \<and>
         (\<exists>v\<in>set (variants_of f). get_answer result ''variant'' = JStr (name v) \<and>
            final_template a result = JStr (name v))) \<and>
      final_template a result \<noteq> argTemplate a)"
proof (intro conjI impI)
  show "qtype (framework_question (argTemplate a)) prev = None \<longleftrightarrow>
          known_variant_id (argTemplate a)"
    using framework_skipped_iff [of "argTemplate a"] by (simp add: framework_question_def)
next
  assume "ask a script = Some r" and "''framework'' \<in> set (asked_questions r)"
  then show "\<not> known_variant_id (argTemplate a)" using ask_asked by blast
next
  assume r: "ask a script = Some (Answers result td)"
    and k: "\<not> known_variant_id (argTemplate a)"
  from ask_Answers [OF r] k
  have m: "map fst result \<in> {[''framework'', ''variant''],
                                [''projectName'', ''framework'', ''variant'']}"
    and ex: "\<exists>f\<in>set FRAMEWORKS. get_answer result ''framework'' = JFramework f \<and>
               (\<exists>v\<in>set (variants_of f). get_answer result ''variant'' = JStr (name v))"
    by (elim disjE conjE; simp)+
  from ex obtain f v
    where f: "f \<in> set FRAMEWORKS" "get_answer result ''framework'' = JFramework f"
      and v: "v \<in> set (variants_of f)" "get_answer result ''variant'' = JStr (name v)"
    by (elim bexE conjE)
  from f v have t: "final_template a result = JStr (name v)"
    by (simp add: final_template_def js_or_def variant_name_truthy)
  from m show "''framework'' \<in> set (map fst result)" "''variant'' \<in> set (map fst result)"
    by auto
  from f v t show "\<exists>f\<in>set FRAMEWORKS. get_answer result ''framework'' = JFramework f \<and>
         (\<exists>v\<in>set (variants_of f). get_answer result ''variant'' = JStr (name v) \<and>
            final_template a result = JStr (name v))"
    by blast
  from variant_name_known [OF f(1) v(1)] k t show "final_template a result \<noteq> argTemplate a"
    by auto
qed

theorem framework_question_skipped_iff_witness:
  "\<not> known_variant_id (argTemplate bogus_argv) \<and>
   ''framework'' \<in> set (asked_questions (Answers
      [(''projectName'', JStr ''vite-project''), (''framework'', JFramework (FRAMEWORKS ! 1)),
       (''variant'', JStr ''react-swc'')] ''vite-project'')) \<and>
   final_template bogus_argv
     [(''projectName'', JStr ''vite-project''), (''framework'', JFramework (FRAMEWORKS ! 1)),
      (''variant'', JStr ''react-swc'')] \<noteq> argTemplate bogus_argv"
  using framework_question_skipped_iff
    [where a = bogus_argv and script = "[Typed [], Chosen 1, Chosen 3]"
       and result = "[(''projectName'', JStr ''vite-project''),
         (''framework'', JFramework (FRAMEWORKS ! 1)), (''variant'', JStr ''react-swc'')]"
       and td = "''vite-project''"]
    ask_bogus unknown_bogus
  by simp

text \<open>
  Claim C7. A call that asked the variant question has a chosen framework of the
  catalog with more than one variant. A framework without variants makes the variant
  question null, so the loop over this one question ends at once with the answers it
  had. When the template candidate is a known variant id, the framework question is
  skipped and the variant question with it, and the variant of the result is undefined.
\<close>

theorem variant_question_asked_only_if:
  "(ask a script = Some r \<longrightarrow> ''variant'' \<in> set (asked_questions r) \<longrightarrow>
      (\<exists>f\<in>set FRAMEWORKS. get_answer (answers_of r) ''framework'' = JFramework f \<and>
         1 < length (variants_of f))) \<and>
   (variants f = None \<longrightarrow>
      qtype variant_question (JFramework f) = None \<and>
      prompts [variant_question] c rs (JFramework f) answers st = Some (Answers answers st)) \<and>
   (ask a script = Some r \<longrightarrow> known_variant_id (argTemplate a) \<longrightarrow>
      ''framework'' \<notin> set (asked_questions r) \<and> ''variant'' \<notin> set (asked_questions r) \<and>
      (\<forall>result td. r = Answers result td \<longrightarrow> get_answer result ''variant'' = JUndefined))"
proof (intro conjI impI allI)
  assume "ask a script = Some r" and "''variant'' \<in> set (asked_questions r)"
  then show "\<exists>f\<in>set FRAMEWORKS. get_answer (answers_of r) ''framework'' = JFramework f \<and>
         1 < length (variants_of f)"
    using ask_asked by blast
next
  assume "variants f = None"
  then show "qtype variant_question (JFramework f) = None"
    and "prompts [variant_question] c rs (JFramework f) answers st = Some (Answers answers st)"
    by (simp_all add: prompts_variant del: prompts.simps(2)) (simp add: variant_question_def)
next
  assume r: "ask a script = Some r" and k: "known_variant_id (argTemplate a)"
  then show "''framework'' \<notin> set (asked_questions r)" "''variant'' \<notin> set (asked_questions r)"
    using ask_asked by blast+
  then show "get_answer result ''variant'' = JUndefined" if "r = Answers result td" for result td
    using that by (simp add: get_answer_absent del: set_map)
qed

theorem variant_question_asked_only_if_witness:
  "1 < length (variants_of (FRAMEWORKS ! 1)) \<and>
   prompts [variant_question] Operation_cancelled [Chosen 0]
     (JFramework \<lparr>name = ''lit'', display = ''Lit'', color = Cyan, variants = None\<rparr>) []
     ''my-app'' = Some (Answers [] ''my-app'') \<and>
   ''variant'' \<notin> set (asked_questions (Answers [] ''my-app'' :: string prompted))"
proof -
  let ?res = "[(''projectName'', JStr ''vite-project''),
    (''framework'', JFramework (FRAMEWORKS ! 1)), (''variant'', JStr ''react-swc'')]"
  have "\<exists>f\<in>set FRAMEWORKS. get_answer ?res ''framework'' = JFramework f \<and>
          1 < length (variants_of f)"
    using variant_question_asked_only_if
      [where a = bogus_argv and script = "[Typed [], Chosen 1, Chosen 3]"
         and r = "Answers ?res ''vite-project''"]
      ask_bogus
    by simp
  then have 1: "1 < length (variants_of (FRAMEWORKS ! 1))"
    by (simp add: get_answer_def)
  have 2: "prompts [variant_question] Operation_cancelled [Chosen 0]
     (JFramework \<lparr>name = ''lit'', display = ''Lit'', color = Cyan, variants = None\<rparr>) []
     ''my-app'' = Some (Answers [] ''my-app'')"
    using variant_question_asked_only_if
      [where f = "\<lparr>name = ''lit'', display = ''Lit'', color = Cyan, variants = None\<rparr>"]
    by simp
  have 3: "''variant'' \<notin> set (asked_questions (Answers [] ''my-app'' :: string prompted))"
    using variant_question_asked_only_if
      [where a = sample_argv and script = "[]" and r = "Answers [] ''my-app''"]
      ask_sample known_sample
    by blast
  from 1 2 3 show ?thesis by blast
qed

text \<open>
  Claim C4. When the user aborts at the question that is open after any responses, the
  question loop is rejected with the error of the cancellation handler. That error
  does not leave \<^verbatim>\<open>init\<close>: the run ends with one more line on the standard output and
  with the disk, the standard error and the exit code as they were.
\<close>

theorem cancelled_run_writes_nothing:
  "(ask a pre = Some (Pending answers q) \<longrightarrow>
      (\<exists>td. ask a (pre @ Abort # rest) = Some (Rejected Operation_cancelled answers q td))) \<and>
   (\<not> truthy (arg_help a) \<longrightarrow> ask a script = Some (Rejected err answers q td) \<longrightarrow>
      err = Operation_cancelled \<and>
      init a e script w = Some (None, w\<lparr>stdout := stdout w @ [Log_err Operation_cancelled]\<rparr>) \<and>
      main a e script w = Some (w\<lparr>stdout := stdout w @ [Log_err Operation_cancelled]\<rparr>))"
proof (intro conjI impI)
  assume "ask a pre = Some (Pending answers q)"
  then show "\<exists>td. ask a (pre @ Abort # rest) = Some (Rejected Operation_cancelled answers q td)"
    unfolding ask_def by (rule prompts_Pending_Abort)
next
  assume h: "\<not> truthy (arg_help a)" and r: "ask a script = Some (Rejected err answers q td)"
  from r show c: "err = Operation_cancelled" by (rule ask_Rejected)
  from main_Rejected [OF h r] c
  show "init a e script w = Some (None, w\<lparr>stdout := stdout w @ [Log_err Operation_cancelled]\<rparr>)"
    and "main a e script w = Some (w\<lparr>stdout := stdout w @ [Log_err Operation_cancelled]\<rparr>)"
    by simp_all
qed

theorem cancelled_run_writes_nothing_witness:
  "(\<exists>td. ask bogus_argv [Typed [], Abort] =
      Some (Rejected Operation_cancelled [(''projectName'', JStr ''vite-project'')]
              ''framework'' td)) \<and>
   main bogus_argv sample_env [Typed [], Abort] (start sample_fs) =
     Some \<lparr>stdout = [Log_err Operation_cancelled], stderr = [], disk = sample_fs,
           exitCode = 0\<rparr>"
proof -
  have 1: "\<exists>td. ask bogus_argv [Typed [], Abort] =
      Some (Rejected Operation_cancelled [(''projectName'', JStr ''vite-project'')]
              ''framework'' td)"
    using cancelled_run_writes_nothing
      [where a = bogus_argv and pre = "[Typed []]" and rest = "[]"
         and answers = "[(''projectName'', JStr ''vite-project'')]" and q = "''framework''"]
      ask_bogus_pending
    by simp
  then obtain td where r: "ask bogus_argv [Typed [], Abort] =
      Some (Rejected Operation_cancelled [(''projectName'', JStr ''vite-project'')]
              ''framework'' td)" ..
  have h: "\<not> truthy (arg_help bogus_argv)" by (simp add: bogus_argv_def)
  have "main bogus_argv sample_env [Typed [], Abort] (start sample_fs) =
     Some ((start sample_fs)\<lparr>stdout := stdout (start sample_fs) @ [Log_err Operation_cancelled]\<rparr>)"
    using cancelled_run_writes_nothing
      [where a = bogus_argv and script = "[Typed [], Abort]" and err = Operation_cancelled
         and answers = "[(''projectName'', JStr ''vite-project'')]" and q = "''framework''"
         and td = td and e = sample_env and w = "start sample_fs"]
      h r
    by blast
  then have "main bogus_argv sample_env [Typed [], Abort] (start sample_fs) =
     Some \<lparr>stdout = [Log_err Operation_cancelled], stderr = [], disk = sample_fs,
           exitCode = 0\<rparr>"
    by (simp add: start_def)
  with 1 show ?thesis by blast
qed

section \<open>Errors of the materialisation\<close>

lemma main_exitCode: "main a e script w = Some w' \<Longrightarrow> exitCode w' = exitCode w"
  by (auto simp: main_def init_def scaffold_def log_def Let_def
      split: option.splits prompted.splits if_splits prod.splits)

text \<open>
  Claim C2, as amended. When the materialisation of a run fails, the error leaves
  \<^verbatim>\<open>init\<close> uncaught, the handler of the module prints it on the standard error, and
  nothing more is printed or written: the disk stays as it was at the failure. The
  process then ends as any other run does; its exit code stays zero. No step hides an
  error: the error of creating the root, of listing the template directory, of
  writing an entry, of creating a directory or of copying a child is the error of the
  step around it, up to the materialisation.
\<close>

theorem materialize_error_is_printed:
  assumes "\<not> truthy (arg_help a)"
    and "ask a script = Some (Answers result td)"
    and "dirname = ''template-'' @ to_string (final_template a result)"
    and "materialize (path_join (cwd e) td) dirname (install e dirname) fs = (Some err, fs')"
  shows "init a e script (start fs) =
           Some (Some err,
                 \<lparr>stdout = [Log_result (get_answer result ''variant'') td,
                             Log_scaffolding (path_join (cwd e) td)],
                  stderr = [], disk = fs', exitCode = 0\<rparr>) \<and>
         main a e script (start fs) =
           Some \<lparr>stdout = [Log_result (get_answer result ''variant'') td,
                            Log_scaffolding (path_join (cwd e) td)],
                 stderr = [err], disk = fs', exitCode = 0\<rparr> \<and>
         (\<not> existsSync root dsk \<longrightarrow> fst (mkdirSync root dsk) = Some x \<longrightarrow>
            fst (materialize root d t dsk) = Some x) \<and>
         (fst (ensure_root root dsk) = None \<longrightarrow> readdirSync d t = Inl x \<longrightarrow>
            fst (materialize root d t dsk) = Some x) \<and>
         (fst (ensure_root root dsk) = None \<longrightarrow> readdirSync d t = Inr (en # es) \<longrightarrow>
          fst (write_file root (en # es) (fst en) None (snd (ensure_root root dsk))) = Some x \<longrightarrow>
            fst (materialize root d t dsk) = Some x) \<and>
         (fst (write_file root entries f None dsk) = None \<longrightarrow>
          fst (write_files root entries files (snd (write_file root entries f None dsk))) = Some x \<longrightarrow>
            fst (write_files root entries (f # files) dsk) = Some x) \<and>
         (fst (mkdirSync p dsk) = Some x \<longrightarrow> fst (copy (Dir es') p dsk) = Some x) \<and>
         (fst (copy child (p @ [nm]) dsk) = Some x \<longrightarrow>
            fst (copyDir_loop ((nm, child) # es') p dsk) = Some x) \<and>
         (fst (copy child (p @ [nm]) dsk) = None \<longrightarrow>
          fst (copyDir_loop es' p (snd (copy child (p @ [nm]) dsk))) = Some x \<longrightarrow>
            fst (copyDir_loop ((nm, child) # es') p dsk) = Some x)"
proof (intro conjI impI)
  show "init a e script (start fs) =
           Some (Some err,
                 \<lparr>stdout = [Log_result (get_answer result ''variant'') td,
                             Log_scaffolding (path_join (cwd e) td)],
                  stderr = [], disk = fs', exitCode = 0\<rparr>)"
    using assms by (simp add: init_def scaffold_def log_def start_def Let_def)
  show "main a e script (start fs) =
           Some \<lparr>stdout = [Log_result (get_answer result ''variant'') td,
                            Log_scaffolding (path_join (cwd e) td)],
                 stderr = [err], disk = fs', exitCode = 0\<rparr>"
    using assms by (simp add: main_def init_def scaffold_def log_def start_def Let_def)
next
  assume "\<not> existsSync root dsk" and "fst (mkdirSync root dsk) = Some x"
  then show "fst (materialize root d t dsk) = Some x"
    by (auto simp: materialize_def ensure_root_def split: prod.splits)
next
  assume "fst (ensure_root root dsk) = None" and "readdirSync d t = Inl x"
  then show "fst (materialize root d t dsk) = Some x"
    by (auto simp: materialize_def split: prod.splits)
next
  assume "fst (ensure_root root dsk) = None" and "readdirSync d t = Inr (en # es)"
    and "fst (write_file root (en # es) (fst en) None (snd (ensure_root root dsk))) = Some x"
  then show "fst (materialize root d t dsk) = Some x"
    by (auto simp: materialize_def split: prod.splits)
next
  assume "fst (write_file root entries f None dsk) = None"
    and "fst (write_files root entries files (snd (write_file root entries f None dsk))) = Some x"
  then show "fst (write_files root entries (f # files) dsk) = Some x"
    by (auto split: prod.splits)
next
  assume "fst (mkdirSync p dsk) = Some x"
  then show "fst (copy (Dir es') p dsk) = Some x"
    by (auto split: prod.splits)
next
  assume "fst (copy child (p @ [nm]) dsk) = Some x"
  then show "fst (copyDir_loop ((nm, child) # es') p dsk) = Some x"
    by (auto split: prod.splits)
next
  assume "fst (copy child (p @ [nm]) dsk) = None"
    and "fst (copyDir_loop es' p (snd (copy child (p @ [nm]) dsk))) = Some x"
  then show "fst (copyDir_loop ((nm, child) # es') p dsk) = Some x"
    by (auto split: prod.splits)
qed

lemma materialize_missing_template:
  "fs root \<noteq> None \<Longrightarrow> materialize root d None fs = (Some (ENOENT [d]), fs)"
  by (simp add: materialize_def ensure_root_def existsSync_def readdirSync_def)

theorem materialize_error_is_printed_witness:
  "(\<exists>fs'. main sample_argv bare_env [] (start sample_fs) =
     Some \<lparr>stdout = [Log_result JUndefined ''my-app'', Log_scaffolding [''home'', ''my-app'']],
           stderr = [ENOENT [''template-react-ts'']], disk = fs', exitCode = 0\<rparr>) \<and>
   fst (materialize [''home'', ''my-app'', ''notes.txt'', ''app''] ''template-vue''
          (Some sample_template) used_fs)
     = Some (ENOTDIR [''home'', ''my-app'', ''notes.txt'', ''app'']) \<and>
   fst (copyDir_loop [(''my-app'', File ''x'')] [''home''] used_fs)
     = Some (EISDIR [''home'', ''my-app''])"
proof -
  let ?d = "''template-'' @ to_string (final_template sample_argv [])"
  let ?m = "materialize (path_join (cwd bare_env) ''my-app'') ?d (install bare_env ?d) sample_fs"
  have h: "\<not> truthy (arg_help sample_argv)" by (simp add: sample_argv_def)
  have t: "final_template sample_argv [] = JStr ''react-ts''"
    by (simp add: final_template_def get_answer_def js_or_def argTemplate_def sample_argv_def)
  have "fst ?m = Some (ENOENT [''template-react-ts''])"
    by (simp add: t materialize_def ensure_root_def existsSync_def readdirSync_def bare_env_def
        path_join_def mkdirSync_def sample_fs_def)
  then have m: "?m = (Some (ENOENT [''template-react-ts'']), snd ?m)"
    by (simp add: prod_eq_iff)
  note th = materialize_error_is_printed [OF h ask_sample [of "[]"] refl m]
  from th [THEN conjunct2, THEN conjunct1]
  have 1: "\<exists>fs'. main sample_argv bare_env [] (start sample_fs) =
     Some \<lparr>stdout = [Log_result JUndefined ''my-app'', Log_scaffolding [''home'', ''my-app'']],
           stderr = [ENOENT [''template-react-ts'']], disk = fs', exitCode = 0\<rparr>"
    by (simp add: get_answer_def bare_env_def path_join_def)
  have "\<not> existsSync [''home'', ''my-app'', ''notes.txt'', ''app''] used_fs"
    and "fst (mkdirSync [''home'', ''my-app'', ''notes.txt'', ''app''] used_fs)
           = Some (ENOTDIR [''home'', ''my-app'', ''notes.txt'', ''app''])"
    by (simp_all add: existsSync_def mkdirSync_def used_fs_def)
  with th [where root = "[''home'', ''my-app'', ''notes.txt'', ''app'']" and dsk = used_fs
      and x = "ENOTDIR [''home'', ''my-app'', ''notes.txt'', ''app'']"
      and d = "''template-vue''" and t = "Some sample_template"]
  have 2: "fst (materialize [''home'', ''my-app'', ''notes.txt'', ''app''] ''template-vue''
          (Some sample_template) used_fs)
     = Some (ENOTDIR [''home'', ''my-app'', ''notes.txt'', ''app''])"
    by blast
  have "fst (copy (File ''x'') ([''home''] @ [''my-app'']) used_fs)
          = Some (EISDIR [''home'', ''my-app''])"
    by (simp add: copyFileSync_def store_file_def used_fs_def)
  with th [where child = "File ''x''" and p = "[''home'']" and nm = "''my-app''"
      and dsk = used_fs and x = "EISDIR [''home'', ''my-app'']" and es' = "[]"]
  have 3: "fst (copyDir_loop [(''my-app'', File ''x'')] [''home''] used_fs)
     = Some (EISDIR [''home'', ''my-app''])"
    by blast
  from 1 2 3 show ?thesis by blast
qed

text \<open>
  Claim C2 as stated fails: with the arguments \<^verbatim>\<open>my-app -t react-ts\<close> and no template
  directory to enumerate, the error is printed and the exit code is zero.
\<close>

theorem failed_materialize_exit_code_counterexample:
  "map_option stderr (main sample_argv bare_env [] (start sample_fs)) =
     Some [ENOENT [''template-react-ts'']] \<and>
   map_option exitCode (main sample_argv bare_env [] (start sample_fs)) = Some 0"
proof -
  have h: "\<not> truthy (arg_help sample_argv)" by (simp add: sample_argv_def)
  have t: "final_template sample_argv [] = JStr ''react-ts''"
    by (simp add: final_template_def get_answer_def js_or_def argTemplate_def sample_argv_def)
  have m: "fst (materialize [''home'', ''my-app''] ''template-react-ts'' None sample_fs) =
             Some (ENOENT [''template-react-ts''])"
    by (simp add: materialize_def ensure_root_def existsSync_def readdirSync_def mkdirSync_def
        sample_fs_def)
  then obtain fs' where
    "materialize [''home'', ''my-app''] ''template-react-ts'' None sample_fs =
       (Some (ENOENT [''template-react-ts'']), fs')"
    by (cases "materialize [''home'', ''my-app''] ''template-react-ts'' None sample_fs") simp
  with h show ?thesis
    by (simp add: main_def init_def ask_sample scaffold_def t bare_env_def path_join_def
        log_def start_def Let_def)
qed

section \<open>The copy and the disk\<close>

lemma mkdirSync_existing: "fs q \<noteq> None \<Longrightarrow> snd (mkdirSync p fs) q = fs q"
  by (auto simp: mkdirSync_def)

lemma mkdirSync_changes: "snd (mkdirSync p fs) q \<noteq> fs q \<Longrightarrow> prefix q p \<and> fs q = None"
  by (auto simp: mkdirSync_def split: if_splits)

lemma mkdirSync_ok:
  assumes "fst (mkdirSync p fs) = None"
  shows "snd (mkdirSync p fs) p = Some IDir"
proof -
  from assms have "\<not> list_ex (\<lambda>q. is_file (fs q)) (prefixes p)"
    by (simp add: mkdirSync_def split: if_splits)
  then have "\<not> is_file (fs p)" by (simp add: list_ex_iff)
  then have "fs p = None \<or> fs p = Some IDir"
    by (cases "fs p" rule: is_file.cases) auto
  with assms show ?thesis by (auto simp: mkdirSync_def split: if_splits)
qed

lemma store_file_other: "q \<noteq> d \<Longrightarrow> snd (store_file c d fs) q = fs q"
  by (simp add: store_file_def split: option.split inode.split)

lemma store_file_ok: "fst (store_file c d fs) = None \<Longrightarrow> snd (store_file c d fs) d = Some (IFile c)"
  by (simp add: store_file_def split: option.splits inode.splits if_splits)

lemma copy_existing:
  "fs q \<noteq> None \<Longrightarrow> q \<notin> (@) d ` set (file_paths n) \<Longrightarrow> snd (copy n d fs) q = fs q"
  "fs q \<noteq> None \<Longrightarrow> q \<notin> (@) d ` set (entries_file_paths es) \<Longrightarrow> snd (copyDir es d fs) q = fs q"
  "fs q \<noteq> None \<Longrightarrow> q \<notin> (@) d ` set (entries_file_paths es) \<Longrightarrow>
     snd (copyDir_loop es d fs) q = fs q"
proof (induction n d fs and es d fs and es d fs rule: copy_copyDir_copyDir_loop.induct)
  case (1 c dest fs)
  then show ?case by (simp add: copyFileSync_def store_file_other)
next
  case (2 es dest fs)
  then show ?case by simp
next
  case (3 es destDir fs)
  show ?case
  proof (cases "mkdirSync destDir fs")
    case (Pair r fs')
    with 3 mkdirSync_existing [of fs q destDir] show ?thesis
      by (cases r) auto
  qed
next
  case (4 destDir fs)
  then show ?case by simp
next
  case (5 nm child es destDir fs)
  show ?case
  proof (cases "copy child (destDir @ [nm]) fs")
    case (Pair r fs')
    from "5.prems" have a: "q \<notin> (@) (destDir @ [nm]) ` set (file_paths child)"
      and b: "q \<notin> (@) destDir ` set (entries_file_paths es)"
      by (auto simp: image_iff)
    from "5.IH"(1) [OF "5.prems"(1) a] Pair have c: "fs' q = fs q" by simp
    show ?thesis
    proof (cases r)
      case None
      with "5.IH"(2) [OF Pair [symmetric] None _ b] c "5.prems"(1) Pair show ?thesis by simp
    next
      case (Some e)
      with Pair c show ?thesis by simp
    qed
  qed
qed


lemma entries_file_paths_hd:
  "p \<in> set (entries_file_paths es) \<Longrightarrow> p \<noteq> [] \<and> hd p \<in> set (map fst es)"
  by (induction es) auto

lemma copyDir_loop_keeps_dir:
  "fs d \<noteq> None \<Longrightarrow> snd (copyDir_loop es d fs) d = fs d"
  by (rule copy_existing(3)) (auto dest: entries_file_paths_hd)

lemma copyDir_loop_keeps_sibling:
  assumes "fs q \<noteq> None" and "prefix (d @ [x]) q" and "x \<notin> set (map fst es)"
  shows "snd (copyDir_loop es d fs) q = fs q"
proof -
  have "q \<notin> (@) d ` set (entries_file_paths es)"
  proof
    assume "q \<in> (@) d ` set (entries_file_paths es)"
    then obtain p where p: "p \<in> set (entries_file_paths es)" and q: "q = d @ p" by auto
    from entries_file_paths_hd [OF p] obtain y p' where "p = y # p'" "y \<in> set (map fst es)"
      by (cases p) auto
    with assms(2,3) q show False by auto
  qed
  with assms(1) show ?thesis by (rule copy_existing(3))
qed

lemma tree_at_frame:
  "tree_at fs p n \<Longrightarrow> (\<And>q. prefix p q \<Longrightarrow> fs q \<noteq> None \<Longrightarrow> fs' q = fs q) \<Longrightarrow>
     tree_at fs' p n"
  "trees_at fs p es \<Longrightarrow> (\<And>q. strict_prefix p q \<Longrightarrow> fs q \<noteq> None \<Longrightarrow> fs' q = fs q) \<Longrightarrow>
     trees_at fs' p es"
proof (induction fs p n and fs p es rule: tree_at_trees_at.induct)
  case (1 fs p c)
  then show ?case by simp
next
  case (2 fs p es)
  from "2.prems" have "trees_at fs' p es"
    by (intro "2.IH") (auto simp: strict_prefix_def)
  with "2.prems" show ?case by simp
next
  case (3 fs p)
  then show ?case by simp
next
  case (4 fs p nm child es)
  have "tree_at fs' (p @ [nm]) child"
  proof (rule "4.IH"(1))
    show "tree_at fs (p @ [nm]) child" using "4.prems"(1) by simp
    fix q assume "prefix (p @ [nm]) q" and "fs q \<noteq> None"
    then show "fs' q = fs q"
      by (intro "4.prems"(2)) (auto simp: strict_prefix_def prefix_def)
  qed
  moreover have "trees_at fs' p es"
    using "4.prems" by (intro "4.IH"(2)) auto
  ultimately show ?case by simp
qed

lemma copy_tree_at:
  "fst (copy n d fs) = None \<Longrightarrow> wf_node n \<Longrightarrow> tree_at (snd (copy n d fs)) d n"
  "fst (copyDir es d fs) = None \<Longrightarrow> wf_entries es \<Longrightarrow>
     snd (copyDir es d fs) d = Some IDir \<and> trees_at (snd (copyDir es d fs)) d es"
  "fst (copyDir_loop es d fs) = None \<Longrightarrow> wf_entries es \<Longrightarrow>
     trees_at (snd (copyDir_loop es d fs)) d es"
proof (induction n d fs and es d fs and es d fs rule: copy_copyDir_copyDir_loop.induct)
  case (1 c dest fs)
  then show ?case by (simp add: copyFileSync_def store_file_ok)
next
  case (2 es dest fs)
  then show ?case by simp
next
  case (3 es destDir fs)
  obtain r fs1 where m: "mkdirSync destDir fs = (r, fs1)" by (cases "mkdirSync destDir fs")
  with "3.prems" have r: "r = None" by (cases r) auto
  from mkdirSync_ok [of destDir fs] m r have d: "fs1 destDir = Some IDir" by simp
  from "3.prems" m r have ok: "fst (copyDir_loop es destDir fs1) = None" by simp
  from "3.IH" [OF m [symmetric] r ok "3.prems"(2)]
  have "trees_at (snd (copyDir_loop es destDir fs1)) destDir es" .
  moreover from copyDir_loop_keeps_dir [of fs1 destDir es] d
  have "snd (copyDir_loop es destDir fs1) destDir = Some IDir" by simp
  ultimately show ?case using m r by simp
next
  case (4 destDir fs)
  then show ?case by simp
next
  case (5 nm child es destDir fs)
  obtain r fs1 where c: "copy child (destDir @ [nm]) fs = (r, fs1)"
    by (cases "copy child (destDir @ [nm]) fs")
  with "5.prems" have r: "r = None" by (cases r) auto
  from "5.prems"(2) have wf: "nm \<notin> set (map fst es)" "wf_node child" "wf_entries es" by auto
  from "5.prems"(1) c r have ok: "fst (copyDir_loop es destDir fs1) = None" by simp
  let ?fs2 = "snd (copyDir_loop es destDir fs1)"
  from "5.IH"(1) [OF _ wf(2)] c r have t1: "tree_at fs1 (destDir @ [nm]) child" by simp
  have "tree_at ?fs2 (destDir @ [nm]) child"
    using t1
  proof (rule tree_at_frame(1))
    fix q assume "prefix (destDir @ [nm]) q" and "fs1 q \<noteq> None"
    then show "?fs2 q = fs1 q" using wf(1) by (intro copyDir_loop_keeps_sibling)
  qed
  moreover from "5.IH"(2) [OF c [symmetric] r ok wf(3)] have "trees_at ?fs2 destDir es" .
  ultimately show ?case using c r by simp
qed

section \<open>The entries of the template directory\<close>

lemma targetPath_Inr: "targetPath root file = Inr tp \<Longrightarrow> tp = root @ [dest_name file]"
  by (simp add: targetPath_def dest_name_def split: property.splits)

lemma write_file_existing:
  assumes "fs q \<noteq> None" and "q \<notin> set (entry_targets root entries file)"
  shows "snd (write_file root entries file None fs) q = fs q"
proof (cases "targetPath root file")
  case (Inl e)
  then show ?thesis by (simp add: write_file_def)
next
  case (Inr tp)
  note tp = targetPath_Inr [OF Inr]
  show ?thesis
  proof (cases "map_of entries file")
    case None
    with Inr show ?thesis by (simp add: write_file_def truthy_str_def)
  next
    case (Some n)
    with assms(2) tp have "q \<notin> (@) tp ` set (file_paths n)"
      by (auto simp: entry_targets_def)
    from copy_existing(1) [where fs = fs and q = q, OF assms(1) this] Inr Some show ?thesis
      by (simp add: write_file_def truthy_str_def)
  qed
qed

lemma write_files_existing:
  "fs q \<noteq> None \<Longrightarrow> q \<notin> set (write_targets root entries files) \<Longrightarrow>
     snd (write_files root entries files fs) q = fs q"
proof (induction files arbitrary: fs)
  case Nil
  then show ?case by simp
next
  case (Cons f files)
  obtain r fs1 where w: "write_file root entries f None fs = (r, fs1)"
    by (cases "write_file root entries f None fs")
  from Cons.prems have a: "q \<notin> set (entry_targets root entries f)"
    and b: "q \<notin> set (write_targets root entries files)"
    by (simp_all add: write_targets_def)
  from write_file_existing [where fs = fs and q = q, OF Cons.prems(1) a] w have e: "fs1 q = fs q" by simp
  show ?case
  proof (cases r)
    case None
    with Cons.IH [of fs1] e Cons.prems(1) b w show ?thesis by simp
  next
    case (Some err)
    with w e show ?thesis by simp
  qed
qed

lemma ensure_root_existing: "fs q \<noteq> None \<Longrightarrow> snd (ensure_root root fs) q = fs q"
  by (simp add: ensure_root_def mkdirSync_existing)

lemma materialize_existing:
  assumes "fs q \<noteq> None" and "q \<notin> set (targets root t)"
  shows "snd (materialize root d t fs) q = fs q"
proof -
  obtain r fs1 where e: "ensure_root root fs = (r, fs1)" by (cases "ensure_root root fs")
  from ensure_root_existing [where fs = fs and q = q and root = root, OF assms(1)] e have q: "fs1 q = fs q" by simp
  show ?thesis
  proof (cases r)
    case (Some err)
    with e q show ?thesis by (simp add: materialize_def)
  next
    case None
    show ?thesis
    proof (cases "readdirSync d t")
      case (Inl err)
      with e None q show ?thesis by (simp add: materialize_def)
    next
      case (Inr es)
      then have t: "t = Some (Dir es)"
        by (auto simp: readdirSync_def split: option.splits node.splits)
      with assms(2) have "q \<notin> set (write_targets root es (map fst es))"
        by (simp add: targets_def)
      with write_files_existing [of fs1 q root es "map fst es"] q assms(1)
      have "snd (write_files root es (map fst es) fs1) q = fs q" by simp
      with e None Inr show ?thesis by (simp add: materialize_def)
    qed
  qed
qed

lemma mkdirSync_creates:
  assumes "fst (mkdirSync p fs) = None"
  shows "snd (mkdirSync p fs) q = (if prefix q p \<and> fs q = None then Some IDir else fs q)"
  using assms by (simp add: mkdirSync_def split: if_splits)

lemma dest_name_eq: "dest_name file = (if file = ''_gitignore'' then ''.gitignore'' else file)"
  by (simp add: dest_name_def renameFiles_def)

lemma entry_targets_prefix:
  "q \<in> set (entry_targets root entries file) \<Longrightarrow> prefix (root @ [dest_name file]) q"
  by (auto simp: entry_targets_def split: option.splits)

lemma write_targets_prefix:
  "q \<in> set (write_targets root entries files) \<Longrightarrow>
     \<exists>file\<in>set files. prefix (root @ [dest_name file]) q"
  by (auto simp: write_targets_def dest: entry_targets_prefix)

lemma sibling_prefix: "prefix (d @ [x]) q \<Longrightarrow> prefix (d @ [y]) q \<Longrightarrow> x = y"
  by (auto simp: prefix_def)

lemma write_file_tree_at:
  assumes "write_file root entries file None fs = (None, fs1)"
    and "\<forall>n. map_of entries file = Some n \<longrightarrow> wf_node n"
  shows "\<exists>n. map_of entries file = Some n \<and> tree_at fs1 (root @ [dest_name file]) n"
proof (cases "targetPath root file")
  case (Inl e)
  with assms(1) show ?thesis by (simp add: write_file_def)
next
  case (Inr tp)
  note tp = targetPath_Inr [OF Inr]
  show ?thesis
  proof (cases "map_of entries file")
    case None
    with Inr assms(1) show ?thesis by (simp add: write_file_def truthy_str_def)
  next
    case (Some n)
    with Inr assms(1) have c: "copy n tp fs = (None, fs1)"
      by (simp add: write_file_def truthy_str_def)
    from copy_tree_at(1) [of n tp fs] c assms(2) Some have "tree_at fs1 tp n" by simp
    with Some tp show ?thesis by simp
  qed
qed

lemma write_files_tree_at:
  assumes "fst (write_files root entries files fs) = None"
    and "distinct (map dest_name files)"
    and "\<forall>g n. map_of entries g = Some n \<longrightarrow> wf_node n"
    and "file \<in> set files"
  shows "\<exists>n. map_of entries file = Some n \<and>
           tree_at (snd (write_files root entries files fs)) (root @ [dest_name file]) n"
  using assms(1,2,4)
proof (induction files arbitrary: fs)
  case Nil
  then show ?case by simp
next
  case (Cons f files)
  obtain r fs1 where w: "write_file root entries f None fs = (r, fs1)"
    by (cases "write_file root entries f None fs")
  with Cons.prems(1) have r: "r = None" by (cases r) auto
  from Cons.prems(1) w r have ok: "fst (write_files root entries files fs1) = None" by simp
  let ?fs2 = "snd (write_files root entries files fs1)"
  from Cons.prems(2) have d: "dest_name f \<notin> set (map dest_name files)"
    and ds: "distinct (map dest_name files)" by simp_all
  show ?case
  proof (cases "file \<in> set files")
    case True
    from Cons.IH [OF ok ds True] w r show ?thesis by simp
  next
    case False
    with Cons.prems(3) have [simp]: "file = f" by simp
    have "\<exists>n. map_of entries f = Some n \<and> tree_at fs1 (root @ [dest_name f]) n"
      using w [unfolded r] assms(3) by (intro write_file_tree_at) auto
    then obtain n where n: "map_of entries f = Some n"
      and t: "tree_at fs1 (root @ [dest_name f]) n"
      by (elim exE conjE)
    have "tree_at ?fs2 (root @ [dest_name f]) n"
      using t
    proof (rule tree_at_frame(1))
      fix q assume p: "prefix (root @ [dest_name f]) q" and e: "fs1 q \<noteq> None"
      have "q \<notin> set (write_targets root entries files)"
      proof
        assume "q \<in> set (write_targets root entries files)"
        from write_targets_prefix [OF this]
        obtain g where g: "g \<in> set files" and pg: "prefix (root @ [dest_name g]) q"
          by (elim bexE)
        from sibling_prefix [OF p pg] have "dest_name f = dest_name g" .
        with d g show False by simp
      qed
      with e show "?fs2 q = fs1 q" by (rule write_files_existing)
    qed
    with n w r show ?thesis by simp
  qed
qed

lemma wf_entries_map_of:
  "wf_entries es \<Longrightarrow> map_of es file = Some n \<Longrightarrow> wf_node n"
  by (induction es) (auto split: if_splits)

lemma wf_entries_distinct: "wf_entries es \<Longrightarrow> distinct (map fst es)"
  by (induction es) force+

lemma materialize_ok:
  assumes "fst (materialize root d (Some (Dir es)) fs) = None"
  shows "\<exists>fs1. ensure_root root fs = (None, fs1) \<and>
           materialize root d (Some (Dir es)) fs = write_files root es (map fst es) fs1 \<and>
           fst (write_files root es (map fst es) fs1) = None"
  using assms
  by (auto simp: materialize_def readdirSync_def split: prod.splits option.splits)

lemma materialize_materialized:
  assumes ok: "fst (materialize root d (Some (Dir es)) fs) = None"
    and dist: "distinct (map (\<lambda>e. dest_name (fst e)) es)"
    and wf: "wf_entries es"
  shows "materialized root es (snd (materialize root d (Some (Dir es)) fs))"
proof -
  from materialize_ok [OF ok] obtain fs1
    where m: "materialize root d (Some (Dir es)) fs = write_files root es (map fst es) fs1"
      and w: "fst (write_files root es (map fst es) fs1) = None"
    by blast
  from dist have dist': "distinct (map dest_name (map fst es))" by (simp add: comp_def)
  have "tree_at (snd (write_files root es (map fst es) fs1)) (root @ [dest_name f]) n"
    if "(f, n) \<in> set es" for f n
  proof -
    from that have "f \<in> set (map fst es)" by force
    moreover have "\<forall>g n. map_of es g = Some n \<longrightarrow> wf_node n"
      using wf by (blast intro: wf_entries_map_of)
    ultimately
    have "\<exists>n'. map_of es f = Some n' \<and>
            tree_at (snd (write_files root es (map fst es) fs1)) (root @ [dest_name f]) n'"
      using w dist' by (intro write_files_tree_at)
    moreover from wf_entries_distinct [OF wf] that have "map_of es f = Some n" by simp
    ultimately show ?thesis by simp
  qed
  then have "\<forall>(f, n)\<in>set es.
      tree_at (snd (write_files root es (map fst es) fs1))
        (root @ [if f = ''_gitignore'' then ''.gitignore'' else f]) n"
    by (simp only: dest_name_eq [symmetric]) blast
  then show ?thesis
    by (simp add: materialized_def m list_all_iff)
qed


section \<open>A fresh destination\<close>

lemma prefix_snoc_cases: "prefix q (d @ [x]) \<Longrightarrow> q = d @ [x] \<or> prefix q d"
  by (simp add: prefix_snoc)

lemma prefix_append_left: "prefix (d @ [x]) q \<Longrightarrow> prefix d q"
  by (auto simp: prefix_def)

lemma copy_changes:
  "snd (copy n d fs) q \<noteq> fs q \<Longrightarrow> prefix d q \<or> prefix q d"
  "snd (copyDir es d fs) q \<noteq> fs q \<Longrightarrow> prefix d q \<or> prefix q d"
  "snd (copyDir_loop es d fs) q \<noteq> fs q \<Longrightarrow> prefix d q \<or> prefix q d"
proof (induction n d fs and es d fs and es d fs rule: copy_copyDir_copyDir_loop.induct)
  case (1 c dest fs)
  then show ?case
    using store_file_other [of q dest c fs] by (auto simp: copyFileSync_def)
next
  case (2 es dest fs)
  then show ?case by simp
next
  case (3 es destDir fs)
  obtain r fs1 where m: "mkdirSync destDir fs = (r, fs1)" by (cases "mkdirSync destDir fs")
  show ?case
  proof (cases "fs1 q = fs q")
    case True
    with "3.prems" m have r: "r = None" and "snd (copyDir_loop es destDir fs1) q \<noteq> fs1 q"
      by (cases r; simp)+
    with "3.IH" [OF m [symmetric] r] show ?thesis by simp
  next
    case False
    with mkdirSync_changes [of destDir fs q] m show ?thesis by simp
  qed
next
  case (4 destDir fs)
  then show ?case by simp
next
  case (5 nm child es destDir fs)
  obtain r fs1 where c: "copy child (destDir @ [nm]) fs = (r, fs1)"
    by (cases "copy child (destDir @ [nm]) fs")
  show ?case
  proof (cases "fs1 q = fs q")
    case True
    with "5.prems" c have r: "r = None" and "snd (copyDir_loop es destDir fs1) q \<noteq> fs1 q"
      by (cases r; simp)+
    with "5.IH"(2) [OF c [symmetric] r] show ?thesis by simp
  next
    case False
    with "5.IH"(1) c have "prefix (destDir @ [nm]) q \<or> prefix q (destDir @ [nm])" by simp
    then show ?thesis
      by (auto dest: prefix_snoc_cases prefix_append_left)
  qed
qed

lemma copy_keeps_ancestor:
  assumes "fs q \<noteq> None" and "prefix q d"
  shows "snd (copy n (d @ [x]) fs) q = fs q"
proof -
  have "q \<notin> (@) (d @ [x]) ` set (file_paths n)"
    using assms(2) by (auto simp: prefix_def)
  with assms(1) show ?thesis by (rule copy_existing(1))
qed

lemma copy_keeps_fresh_sibling:
  assumes "fs q = None" and "prefix (d @ [y]) q" and "x \<noteq> y"
  shows "snd (copy n (d @ [x]) fs) q = None"
proof (rule ccontr)
  assume "snd (copy n (d @ [x]) fs) q \<noteq> None"
  with assms(1) have "snd (copy n (d @ [x]) fs) q \<noteq> fs q" by simp
  then have "prefix (d @ [x]) q \<or> prefix q (d @ [x])" by (rule copy_changes(1))
  with assms(2,3) show False
    by (auto simp: prefix_def)
qed

lemma is_file_dir: "\<not> is_file x \<Longrightarrow> x \<noteq> None \<Longrightarrow> x = Some IDir"
  by (cases x rule: is_file.cases) auto

lemma mkdirSync_fresh:
  assumes "\<forall>q. strict_prefix q d \<longrightarrow> \<not> is_file (fs q)" and "fs d = None"
  shows "fst (mkdirSync d fs) = None"
    and "\<forall>q. prefix q d \<longrightarrow> snd (mkdirSync d fs) q = Some IDir"
    and "\<forall>q. \<not> prefix q d \<longrightarrow> snd (mkdirSync d fs) q = fs q"
proof -
  have n: "\<not> list_ex (\<lambda>q. is_file (fs q)) (prefixes d)"
    using assms by (auto simp: list_ex_iff strict_prefix_def)
  then show "fst (mkdirSync d fs) = None" by (simp add: mkdirSync_def)
  from n show "\<forall>q. \<not> prefix q d \<longrightarrow> snd (mkdirSync d fs) q = fs q"
    by (simp add: mkdirSync_def)
  show "\<forall>q. prefix q d \<longrightarrow> snd (mkdirSync d fs) q = Some IDir"
  proof (intro allI impI)
    fix q assume p: "prefix q d"
    with n have "\<not> is_file (fs q)" by (simp add: list_ex_iff)
    with n p show "snd (mkdirSync d fs) q = Some IDir"
      by (auto simp: mkdirSync_def dest: is_file_dir)
  qed
qed

lemma copy_fresh:
  "d \<noteq> [] \<Longrightarrow> \<forall>q. strict_prefix q d \<longrightarrow> fs q = Some IDir \<Longrightarrow>
     \<forall>q. prefix d q \<longrightarrow> fs q = None \<Longrightarrow> wf_node n \<Longrightarrow> fst (copy n d fs) = None"
  "\<forall>q. strict_prefix q d \<longrightarrow> fs q = Some IDir \<Longrightarrow>
     \<forall>q. prefix d q \<longrightarrow> fs q = None \<Longrightarrow> wf_entries es \<Longrightarrow> fst (copyDir es d fs) = None"
  "\<forall>q. prefix q d \<longrightarrow> fs q = Some IDir \<Longrightarrow>
     \<forall>x\<in>set (map fst es). \<forall>q. prefix (d @ [x]) q \<longrightarrow> fs q = None \<Longrightarrow> wf_entries es \<Longrightarrow>
     fst (copyDir_loop es d fs) = None"
proof (induction n d fs and es d fs and es d fs rule: copy_copyDir_copyDir_loop.induct)
  case (1 c dest fs)
  from "1.prems"(1) have "strict_prefix (butlast dest) dest"
    by (cases dest rule: rev_cases) (auto simp: strict_prefix_def)
  with "1.prems" have "fs (butlast dest) = Some IDir" "fs dest = None" by auto
  with "1.prems"(1) show ?case by (simp add: copyFileSync_def store_file_def)
next
  case (2 es dest fs)
  then show ?case by simp
next
  case (3 es destDir fs)
  have a: "\<forall>q. strict_prefix q destDir \<longrightarrow> \<not> is_file (fs q)"
    using "3.prems"(1) by auto
  have b: "fs destDir = None" using "3.prems"(2) by simp
  obtain fs1 where m: "mkdirSync destDir fs = (None, fs1)"
    using mkdirSync_fresh(1) [OF a b] by (cases "mkdirSync destDir fs") auto
  from mkdirSync_fresh(2) [OF a b] m have p: "\<forall>q. prefix q destDir \<longrightarrow> fs1 q = Some IDir"
    by simp
  have "\<forall>x\<in>set (map fst es). \<forall>q. prefix (destDir @ [x]) q \<longrightarrow> fs1 q = None"
  proof (intro ballI allI impI)
    fix x q assume "prefix (destDir @ [x]) q"
    then have "\<not> prefix q destDir" "prefix destDir q" by (auto simp: prefix_def)
    with mkdirSync_fresh(3) [OF a b] m "3.prems"(2) show "fs1 q = None" by simp
  qed
  from "3.IH" [OF m [symmetric] refl p this "3.prems"(3)] m show ?case by simp
next
  case (4 destDir fs)
  then show ?case by simp
next
  case (5 nm child es destDir fs)
  from "5.prems"(3) have wf: "nm \<notin> set (map fst es)" "wf_node child" "wf_entries es" by auto
  have "fst (copy child (destDir @ [nm]) fs) = None"
  proof (rule "5.IH"(1))
    show "destDir @ [nm] \<noteq> []" by simp
    show "\<forall>q. strict_prefix q (destDir @ [nm]) \<longrightarrow> fs q = Some IDir"
      using "5.prems"(1) by (auto simp: strict_prefix_def dest: prefix_snoc_cases)
    show "\<forall>q. prefix (destDir @ [nm]) q \<longrightarrow> fs q = None"
      using "5.prems"(2) by simp
    show "wf_node child" by (rule wf(2))
  qed
  then obtain fs1 where c: "copy child (destDir @ [nm]) fs = (None, fs1)"
    by (cases "copy child (destDir @ [nm]) fs") auto
  have "fst (copyDir_loop es destDir fs1) = None"
  proof (rule "5.IH"(2) [OF c [symmetric] refl])
    show "\<forall>q. prefix q destDir \<longrightarrow> fs1 q = Some IDir"
    proof (intro allI impI)
      fix q assume p: "prefix q destDir"
      with "5.prems"(1) have "fs q = Some IDir" by simp
      with copy_keeps_ancestor [of fs q destDir child nm] p c show "fs1 q = Some IDir" by simp
    qed
    show "\<forall>x\<in>set (map fst es). \<forall>q. prefix (destDir @ [x]) q \<longrightarrow> fs1 q = None"
    proof (intro ballI allI impI)
      fix x q assume x: "x \<in> set (map fst es)" and p: "prefix (destDir @ [x]) q"
      with "5.prems"(2) have "fs q = None" by auto
      moreover from x wf(1) have "nm \<noteq> x" by auto
      ultimately show "fs1 q = None"
        using copy_keeps_fresh_sibling [of fs q destDir x nm child] p c by simp
    qed
    show "wf_entries es" by (rule wf(3))
  qed
  with c show ?case by simp
qed

lemma write_file_changes:
  assumes "snd (write_file root entries f None fs) q \<noteq> fs q"
  shows "prefix (root @ [dest_name f]) q \<or> prefix q (root @ [dest_name f])"
proof (cases "targetPath root f")
  case (Inl e)
  with assms show ?thesis by (simp add: write_file_def)
next
  case (Inr tp)
  note tp = targetPath_Inr [OF Inr]
  show ?thesis
  proof (cases "map_of entries f")
    case None
    with Inr assms show ?thesis by (simp add: write_file_def truthy_str_def)
  next
    case (Some n)
    with Inr assms have "snd (copy n tp fs) q \<noteq> fs q"
      by (simp add: write_file_def truthy_str_def)
    then have "prefix tp q \<or> prefix q tp" by (rule copy_changes(1))
    with tp show ?thesis by simp
  qed
qed

lemma write_file_fresh:
  assumes "\<forall>q. prefix q root \<longrightarrow> fs q = Some IDir"
    and "\<forall>q. prefix (root @ [dest_name f]) q \<longrightarrow> fs q = None"
    and "renameFiles f \<noteq> Inherited"
    and "map_of entries f = Some n" and "wf_node n"
  shows "fst (write_file root entries f None fs) = None"
proof -
  from assms(3) have tp: "targetPath root f = Inr (root @ [dest_name f])"
    by (simp add: targetPath_def dest_name_def split: property.splits)
  have "fst (copy n (root @ [dest_name f]) fs) = None"
  proof (rule copy_fresh(1))
    show "root @ [dest_name f] \<noteq> []" by simp
    show "\<forall>q. strict_prefix q (root @ [dest_name f]) \<longrightarrow> fs q = Some IDir"
      using assms(1) by (auto simp: strict_prefix_def dest: prefix_snoc_cases)
    show "\<forall>q. prefix (root @ [dest_name f]) q \<longrightarrow> fs q = None" by (rule assms(2))
    show "wf_node n" by (rule assms(5))
  qed
  with tp assms(4) show ?thesis by (simp add: write_file_def truthy_str_def)
qed

lemma write_files_fresh:
  assumes "\<forall>q. prefix q root \<longrightarrow> fs q = Some IDir"
    and "\<forall>x\<in>set files. \<forall>q. prefix (root @ [dest_name x]) q \<longrightarrow> fs q = None"
    and "distinct (map dest_name files)"
    and "\<forall>g\<in>set files. renameFiles g \<noteq> Inherited \<and> (\<exists>n. map_of entries g = Some n \<and> wf_node n)"
  shows "fst (write_files root entries files fs) = None"
  using assms
proof (induction files arbitrary: fs)
  case Nil
  then show ?case by simp
next
  case (Cons f files)
  from Cons.prems(4) obtain n where n: "map_of entries f = Some n" "wf_node n"
    and i: "renameFiles f \<noteq> Inherited" by auto
  from Cons.prems(2) have fr: "\<forall>q. prefix (root @ [dest_name f]) q \<longrightarrow> fs q = None" by simp
  from write_file_fresh [OF Cons.prems(1) fr i n]
  obtain fs1 where w: "write_file root entries f None fs = (None, fs1)"
    by (cases "write_file root entries f None fs") auto
  have "fst (write_files root entries files fs1) = None"
  proof (rule Cons.IH)
    show "\<forall>q. prefix q root \<longrightarrow> fs1 q = Some IDir"
    proof (intro allI impI)
      fix q assume p: "prefix q root"
      with Cons.prems(1) have e: "fs q = Some IDir" by simp
      have "q \<notin> set (entry_targets root entries f)"
        using p by (auto dest!: entry_targets_prefix simp: prefix_def)
      with write_file_existing [of fs q root entries f] e w
      show "fs1 q = Some IDir" by simp
    qed
    show "\<forall>x\<in>set files. \<forall>q. prefix (root @ [dest_name x]) q \<longrightarrow> fs1 q = None"
    proof (intro ballI allI impI)
      fix x q assume x: "x \<in> set files" and p: "prefix (root @ [dest_name x]) q"
      with Cons.prems(2) have e: "fs q = None" by simp
      from x Cons.prems(3) have ne: "dest_name f \<noteq> dest_name x" by auto
      show "fs1 q = None"
      proof (rule ccontr)
        assume "fs1 q \<noteq> None"
        with e w have "snd (write_file root entries f None fs) q \<noteq> fs q" by simp
        then have "prefix (root @ [dest_name f]) q \<or> prefix q (root @ [dest_name f])"
          by (rule write_file_changes)
        with p ne show False by (auto simp: prefix_def)
      qed
    qed
    show "distinct (map dest_name files)" using Cons.prems(3) by simp
    show "\<forall>g\<in>set files. renameFiles g \<noteq> Inherited \<and>
            (\<exists>n. map_of entries g = Some n \<and> wf_node n)"
      using Cons.prems(4) by simp
  qed
  with w show ?case by simp
qed

lemma wf_entries_lookup:
  "wf_entries es \<Longrightarrow> (f, n) \<in> set es \<Longrightarrow> map_of es f = Some n \<and> wf_node n"
  using wf_entries_distinct [of es] wf_entries_map_of [of es f n] by simp

lemma materialize_fresh:
  assumes fresh: "\<forall>q. prefix root q \<longrightarrow> fs q = None"
    and above: "\<forall>q. strict_prefix q root \<longrightarrow> \<not> is_file (fs q)"
    and names: "\<forall>e\<in>set es. renameFiles (fst e) \<noteq> Inherited"
    and dist: "distinct (map (\<lambda>e. dest_name (fst e)) es)"
    and wf: "wf_entries es"
  shows "fst (materialize root d (Some (Dir es)) fs) = None"
proof -
  from fresh have r: "fs root = None" by simp
  obtain fs1 where m: "mkdirSync root fs = (None, fs1)"
    using mkdirSync_fresh(1) [OF above r] by (cases "mkdirSync root fs") auto
  from mkdirSync_fresh(2) [OF above r] m have p: "\<forall>q. prefix q root \<longrightarrow> fs1 q = Some IDir"
    by simp
  have "fst (write_files root es (map fst es) fs1) = None"
  proof (rule write_files_fresh [OF p])
    show "\<forall>x\<in>set (map fst es). \<forall>q. prefix (root @ [dest_name x]) q \<longrightarrow> fs1 q = None"
    proof (intro ballI allI impI)
      fix x q assume "prefix (root @ [dest_name x]) q"
      then have "\<not> prefix q root" "prefix root q" by (auto simp: prefix_def)
      with mkdirSync_fresh(3) [OF above r] m fresh show "fs1 q = None" by simp
    qed
    show "distinct (map dest_name (map fst es))" using dist by (simp add: comp_def)
    show "\<forall>g\<in>set (map fst es). renameFiles g \<noteq> Inherited \<and>
            (\<exists>n. map_of es g = Some n \<and> wf_node n)"
      using names wf_entries_lookup [OF wf] by auto
  qed
  with m r show ?thesis
    by (simp add: materialize_def ensure_root_def existsSync_def readdirSync_def)
qed

text \<open>
  Claim C3, as amended. Let the directories of the template list no name twice and let
  no two entries of the template directory get the same name in the project (so not
  both \<^verbatim>\<open>_gitignore\<close> and \<^verbatim>\<open>.gitignore\<close>). Then a materialisation that ends without
  error leaves every entry in the root with its whole tree: the same directories, every
  file with the content of the template's file, the entry \<^verbatim>\<open>_gitignore\<close> under the name
  \<^verbatim>\<open>.gitignore\<close>. And it does end without error when the root and all below it are
  new, no file stands above the root, and no entry has the name of a property that the
  rename table inherits.
\<close>

theorem materialize_copies_template:
  assumes "wf_entries es" and "distinct (map (\<lambda>e. dest_name (fst e)) es)"
  shows "(fst (materialize root d (Some (Dir es)) fs) = None \<longrightarrow>
            materialized root es (snd (materialize root d (Some (Dir es)) fs)) \<and>
            (\<forall>c. (''_gitignore'', File c) \<in> set es \<longrightarrow>
               snd (materialize root d (Some (Dir es)) fs) (root @ [''.gitignore''])
                 = Some (IFile c))) \<and>
         ((\<forall>q. prefix root q \<longrightarrow> fs q = None) \<and>
          (\<forall>q. strict_prefix q root \<longrightarrow> \<not> is_file (fs q)) \<and>
          (\<forall>e\<in>set es. renameFiles (fst e) \<noteq> Inherited) \<longrightarrow>
            fst (materialize root d (Some (Dir es)) fs) = None)"
proof (intro conjI impI allI)
  assume ok: "fst (materialize root d (Some (Dir es)) fs) = None"
  from materialize_materialized [OF ok assms(2,1)]
  show m: "materialized root es (snd (materialize root d (Some (Dir es)) fs))" .
  fix c assume "(''_gitignore'', File c) \<in> set es"
  with m show "snd (materialize root d (Some (Dir es)) fs) (root @ [''.gitignore''])
                 = Some (IFile c)"
    by (auto simp: materialized_def list_all_iff)
next
  assume "(\<forall>q. prefix root q \<longrightarrow> fs q = None) \<and>
          (\<forall>q. strict_prefix q root \<longrightarrow> \<not> is_file (fs q)) \<and>
          (\<forall>e\<in>set es. renameFiles (fst e) \<noteq> Inherited)"
  with assms show "fst (materialize root d (Some (Dir es)) fs) = None"
    by (intro materialize_fresh) auto
qed


lemma sample_fs_fresh: "\<forall>q. prefix [''home'', ''my-app''] q \<longrightarrow> sample_fs q = None"
  by (auto simp: sample_fs_def prefix_def)

lemma sample_fs_dirs: "\<forall>q. strict_prefix q [''home'', ''my-app''] \<longrightarrow> \<not> is_file (sample_fs q)"
  by (auto simp: sample_fs_def)

theorem materialize_copies_template_witness:
  "fst (materialize [''home'', ''my-app''] ''template-react-ts'' (Some (Dir sample_entries))
          sample_fs) = None \<and>
   materialized [''home'', ''my-app''] sample_entries
     (snd (materialize [''home'', ''my-app''] ''template-react-ts''
             (Some (Dir sample_entries)) sample_fs)) \<and>
   snd (materialize [''home'', ''my-app''] ''template-react-ts'' (Some (Dir sample_entries))
          sample_fs) [''home'', ''my-app'', ''.gitignore''] = Some (IFile ''node_modules'')"
proof -
  have wf: "wf_entries sample_entries" by (simp add: sample_entries_def)
  have dist: "distinct (map (\<lambda>e. dest_name (fst e)) sample_entries)"
    by (simp add: sample_entries_def dest_name_eq)
  have names: "\<forall>e\<in>set sample_entries. renameFiles (fst e) \<noteq> Inherited"
    by (simp add: sample_entries_def renameFiles_def object_prototype_keys_def)
  have g: "(''_gitignore'', File ''node_modules'') \<in> set sample_entries"
    by (simp add: sample_entries_def)
  note t = materialize_copies_template [OF wf dist, of "[''home'', ''my-app'']"
      "''template-react-ts''" sample_fs]
  from t sample_fs_fresh sample_fs_dirs names
  have ok: "fst (materialize [''home'', ''my-app''] ''template-react-ts''
                   (Some (Dir sample_entries)) sample_fs) = None"
    by blast
  with t g show ?thesis by auto
qed

text \<open>
  Claim C3 as stated fails on a template directory with a subdirectory, a file
  \<^verbatim>\<open>_gitignore\<close> and a file \<^verbatim>\<open>.gitignore\<close>: both files are written to \<^verbatim>\<open>.gitignore\<close>, the
  second over the first, so the root does not hold a copy of every file.
\<close>

theorem gitignore_clash_counterexample:
  "fst (materialize [''home'', ''my-app''] ''template-vue'' (Some (Dir clash_entries))
          sample_fs) = None \<and>
   \<not> materialized [''home'', ''my-app''] clash_entries
       (snd (materialize [''home'', ''my-app''] ''template-vue'' (Some (Dir clash_entries))
               sample_fs))"
  by (simp add: materialize_def ensure_root_def existsSync_def mkdirSync_def readdirSync_def
      clash_entries_def sample_fs_def write_file_def targetPath_def renameFiles_def
      object_prototype_keys_def truthy_str_def copyFileSync_def store_file_def
      materialized_def)

text \<open>
  Claim C8. A root that exists is left as it is, without an error; a root that does
  not exist is created by the recursive \<^verbatim>\<open>mkdirSync\<close>, which, when it succeeds, makes
  the root and its missing ancestors directories and changes nothing else. Whether
  the materialisation ends with an error or not, every entry that was on the disk
  before, and is not the target of a file of the template, is on the disk unchanged
  afterwards.
\<close>

theorem materialize_keeps_existing_entries:
  "(existsSync root fs \<longrightarrow> ensure_root root fs = (None, fs)) \<and>
   (\<not> existsSync root fs \<longrightarrow>
      ensure_root root fs = mkdirSync root fs \<and>
      (fst (mkdirSync root fs) = None \<longrightarrow>
         snd (mkdirSync root fs) root = Some IDir \<and>
         (\<forall>q. snd (mkdirSync root fs) q =
                (if prefix q root \<and> fs q = None then Some IDir else fs q)))) \<and>
   (fs q \<noteq> None \<longrightarrow> q \<notin> set (targets root t) \<longrightarrow> snd (materialize root d t fs) q = fs q)"
  by (simp add: ensure_root_def materialize_existing mkdirSync_ok mkdirSync_creates)



theorem materialize_keeps_existing_entries_witness:
  "ensure_root [''home'', ''my-app''] used_fs = (None, used_fs) \<and>
   snd (mkdirSync [''home'', ''a'', ''b''] sample_fs) [''home'', ''a''] = Some IDir \<and>
   snd (mkdirSync [''home'', ''a'', ''b''] sample_fs) [''home'', ''a'', ''b''] = Some IDir \<and>
   snd (materialize [''home'', ''my-app''] ''template-react-ts'' (Some sample_template) used_fs)
     [''home'', ''my-app'', ''notes.txt''] = Some (IFile ''to do'')"
proof -
  have e: "existsSync [''home'', ''my-app''] used_fs"
    by (simp add: existsSync_def used_fs_def)
  have n: "\<not> existsSync [''home'', ''a'', ''b''] sample_fs"
    by (simp add: existsSync_def sample_fs_def)
  have m: "fst (mkdirSync [''home'', ''a'', ''b''] sample_fs) = None"
    by (simp add: mkdirSync_def sample_fs_def)
  have q: "used_fs [''home'', ''my-app'', ''notes.txt''] \<noteq> None"
    by (simp add: used_fs_def)
  have t: "[''home'', ''my-app'', ''notes.txt'']
             \<notin> set (targets [''home'', ''my-app''] (Some sample_template))"
    by (simp add: targets_def sample_template_def sample_entries_def write_targets_def
        entry_targets_def dest_name_eq)
  from materialize_keeps_existing_entries [of "[''home'', ''my-app'']" used_fs] e
  have 1: "ensure_root [''home'', ''my-app''] used_fs = (None, used_fs)" by blast
  from materialize_keeps_existing_entries [of "[''home'', ''a'', ''b'']" sample_fs] n m
  have 2: "snd (mkdirSync [''home'', ''a'', ''b''] sample_fs) [''home'', ''a'', ''b''] = Some IDir"
    and "\<forall>q. snd (mkdirSync [''home'', ''a'', ''b''] sample_fs) q =
           (if prefix q [''home'', ''a'', ''b''] \<and> sample_fs q = None then Some IDir
            else sample_fs q)"
    by blast+
  then have 3: "snd (mkdirSync [''home'', ''a'', ''b''] sample_fs) [''home'', ''a''] = Some IDir"
    by (simp add: sample_fs_def)
  from materialize_keeps_existing_entries
    [where root = "[''home'', ''my-app'']" and fs = used_fs
       and q = "[''home'', ''my-app'', ''notes.txt'']" and t = "Some sample_template"
       and d = "''template-react-ts''"] q t
  have 4: "snd (materialize [''home'', ''my-app''] ''template-react-ts'' (Some sample_template)
                  used_fs) [''home'', ''my-app'', ''notes.txt''] = Some (IFile ''to do'')"
    by (simp add: used_fs_def)
  from 1 2 3 4 show ?thesis by blast
qed

section \<open>Files inside the entries\<close>

lemma tree_at_lookup:
  "lookup_node n p = Some (File c) \<Longrightarrow> tree_at fs d n \<Longrightarrow> fs (d @ p) = Some (IFile c)"
  "lookup_entries es x p = Some (File c) \<Longrightarrow> trees_at fs d es \<Longrightarrow>
     fs (d @ x # p) = Some (IFile c)"
proof (induction n p and es x p arbitrary: d and d rule: lookup_node_lookup_entries.induct)
  case (1 n)
  then show ?case by simp
next
  case (2 c' x p)
  then show ?case by simp
next
  case (3 es x p)
  then show ?case by simp
next
  case (4 x p)
  then show ?case by simp
next
  case (5 nm child es x p)
  show ?case
  proof (cases "x = nm")
    case True
    with "5.prems" have "lookup_node child p = Some (File c)" "tree_at fs (d @ [nm]) child"
      by simp_all
    with "5.IH"(1) [OF True, of "d @ [nm]"] True show ?thesis by simp
  next
    case False
    with "5.prems" "5.IH"(2) [of d] show ?thesis by simp
  qed
qed

lemma lookup_entries_None: "x \<notin> set (map fst es) \<Longrightarrow> lookup_entries es x p = None"
  by (induction es) auto

lemma copy_absent:
  "fs q = None \<Longrightarrow> \<not> prefix q d \<Longrightarrow> \<forall>p. q = d @ p \<longrightarrow> lookup_node n p = None \<Longrightarrow>
     wf_node n \<Longrightarrow> snd (copy n d fs) q = None"
  "fs q = None \<Longrightarrow> \<not> prefix q d \<Longrightarrow> \<forall>x p. q = d @ x # p \<longrightarrow> lookup_entries es x p = None \<Longrightarrow>
     wf_entries es \<Longrightarrow> snd (copyDir es d fs) q = None"
  "fs q = None \<Longrightarrow> \<not> prefix q d \<Longrightarrow> \<forall>x p. q = d @ x # p \<longrightarrow> lookup_entries es x p = None \<Longrightarrow>
     wf_entries es \<Longrightarrow> snd (copyDir_loop es d fs) q = None"
proof (induction n d fs and es d fs and es d fs rule: copy_copyDir_copyDir_loop.induct)
  case (1 c dest fs)
  from "1.prems"(2) have "q \<noteq> dest" by auto
  with "1.prems"(1) show ?case by (simp add: copyFileSync_def store_file_other)
next
  case (2 es dest fs)
  from "2.prems"(3) have "\<forall>x p. q = dest @ x # p \<longrightarrow> lookup_entries es x p = None"
    by auto
  with "2.IH" "2.prems" show ?case by simp
next
  case (3 es destDir fs)
  obtain r fs1 where m: "mkdirSync destDir fs = (r, fs1)" by (cases "mkdirSync destDir fs")
  have q: "fs1 q = None"
  proof (rule ccontr)
    assume "fs1 q \<noteq> None"
    with m "3.prems"(1) have "snd (mkdirSync destDir fs) q \<noteq> fs q" by simp
    from mkdirSync_changes [OF this] "3.prems"(2) show False by simp
  qed
  show ?case
  proof (cases r)
    case None
    with "3.IH" [OF m [symmetric] None q "3.prems"(2,3,4)] m show ?thesis by simp
  next
    case (Some e)
    with m q show ?thesis by simp
  qed
next
  case (4 destDir fs)
  then show ?case by simp
next
  case (5 nm child es destDir fs)
  from "5.prems"(4) have wf: "nm \<notin> set (map fst es)" "wf_node child" "wf_entries es" by auto
  obtain r fs1 where c: "copy child (destDir @ [nm]) fs = (r, fs1)"
    by (cases "copy child (destDir @ [nm]) fs")
  have np: "\<not> prefix q (destDir @ [nm])"
  proof
    assume "prefix q (destDir @ [nm])"
    with "5.prems"(2) have "q = destDir @ [nm]" by (auto dest: prefix_snoc_cases)
    with "5.prems"(3) have "lookup_entries ((nm, child) # es) nm [] = None" by blast
    then show False by simp
  qed
  have "\<forall>p. q = (destDir @ [nm]) @ p \<longrightarrow> lookup_node child p = None"
    using "5.prems"(3) by auto
  from "5.IH"(1) [OF "5.prems"(1) np this wf(2)] c have q: "fs1 q = None" by simp
  show ?case
  proof (cases r)
    case (Some e)
    with c q show ?thesis by simp
  next
    case None
    have "\<forall>x p. q = destDir @ x # p \<longrightarrow> lookup_entries es x p = None"
    proof (intro allI impI)
      fix x p assume e: "q = destDir @ x # p"
      show "lookup_entries es x p = None"
      proof (cases "x = nm")
        case True
        with wf(1) show ?thesis by (simp add: lookup_entries_None)
      next
        case False
        with "5.prems"(3) e show ?thesis by auto
      qed
    qed
    from "5.IH"(2) [OF c [symmetric] None q "5.prems"(2) this wf(3)] c None
    show ?thesis by simp
  qed
qed


lemma write_file_absent:
  assumes "fs q = None" and "\<not> prefix q root"
    and "\<forall>n p. map_of entries f = Some n \<longrightarrow> q = root @ dest_name f # p \<longrightarrow>
           lookup_node n p = None"
    and "\<forall>n. map_of entries f = Some n \<longrightarrow> wf_node n"
  shows "snd (write_file root entries f None fs) q = None"
proof (cases "targetPath root f")
  case (Inl e)
  with assms(1) show ?thesis by (simp add: write_file_def)
next
  case (Inr tp)
  note tp = targetPath_Inr [OF Inr]
  show ?thesis
  proof (cases "map_of entries f")
    case None
    with Inr assms(1) show ?thesis by (simp add: write_file_def truthy_str_def)
  next
    case (Some n)
    have np: "\<not> prefix q tp"
    proof
      assume "prefix q tp"
      with tp assms(2) have "q = root @ dest_name f # []" by (auto dest: prefix_snoc_cases)
      with assms(3) Some have "lookup_node n [] = None" by blast
      then show False by simp
    qed
    have "\<forall>p. q = tp @ p \<longrightarrow> lookup_node n p = None"
      using assms(3) Some tp by simp
    from copy_absent(1) [where fs = fs and q = q, OF assms(1) np this] assms(4) Some
    have "snd (copy n tp fs) q = None" by simp
    with Inr Some show ?thesis by (simp add: write_file_def truthy_str_def)
  qed
qed

lemma write_files_absent:
  assumes "fs q = None" and "\<not> prefix q root"
    and "\<forall>g\<in>set files. \<forall>n p. map_of entries g = Some n \<longrightarrow> q = root @ dest_name g # p \<longrightarrow>
           lookup_node n p = None"
    and "\<forall>g n. map_of entries g = Some n \<longrightarrow> wf_node n"
  shows "snd (write_files root entries files fs) q = None"
  using assms(1,3)
proof (induction files arbitrary: fs)
  case Nil
  then show ?case by simp
next
  case (Cons f files)
  obtain r fs1 where w: "write_file root entries f None fs = (r, fs1)"
    by (cases "write_file root entries f None fs")
  have "snd (write_file root entries f None fs) q = None"
    using Cons.prems(1) assms(2) Cons.prems(2) assms(4) by (intro write_file_absent) auto
  with w have q: "fs1 q = None" by simp
  show ?case
  proof (cases r)
    case None
    from Cons.IH [of fs1] q Cons.prems(2) w None show ?thesis by simp
  next
    case (Some e)
    with w q show ?thesis by simp
  qed
qed

lemma materialize_absent:
  assumes "fs q = None" and "\<not> prefix q root"
    and "\<forall>g n p. (g, n) \<in> set es \<longrightarrow> q = root @ dest_name g # p \<longrightarrow> lookup_node n p = None"
    and "wf_entries es"
  shows "snd (materialize root d (Some (Dir es)) fs) q = None"
proof -
  obtain r fs1 where e: "ensure_root root fs = (r, fs1)" by (cases "ensure_root root fs")
  have q: "fs1 q = None"
  proof (rule ccontr)
    assume "fs1 q \<noteq> None"
    with e assms(1) have "snd (mkdirSync root fs) q \<noteq> fs q"
      by (auto simp: ensure_root_def split: if_splits)
    from mkdirSync_changes [OF this] assms(2) show False by simp
  qed
  show ?thesis
  proof (cases r)
    case (Some err)
    with e q show ?thesis by (simp add: materialize_def)
  next
    case None
    have "snd (write_files root es (map fst es) fs1) q = None"
    proof (rule write_files_absent [where fs = fs1 and q = q, OF q assms(2)])
      show "\<forall>g\<in>set (map fst es). \<forall>n p. map_of es g = Some n \<longrightarrow>
              q = root @ dest_name g # p \<longrightarrow> lookup_node n p = None"
        using assms(3) by (auto dest!: map_of_SomeD)
      show "\<forall>g n. map_of es g = Some n \<longrightarrow> wf_node n"
        using assms(4) by (blast intro: wf_entries_map_of)
    qed
    with e None show ?thesis by (simp add: materialize_def readdirSync_def)
  qed
qed

lemma dest_name_entry_unique:
  assumes "distinct (map (\<lambda>e. dest_name (fst e)) es)"
    and "(f, n) \<in> set es" and "(g, m) \<in> set es" and "dest_name f = dest_name g"
  shows "g = f \<and> m = n"
proof -
  from assms(1) have "inj_on (\<lambda>e. dest_name (fst e)) (set es)" by (simp add: distinct_map)
  from inj_onD [OF this _ assms(2,3)] assms(4) show ?thesis by simp
qed

lemma store_file_stays: "is_file (fs q) \<Longrightarrow> is_file (snd (store_file c d fs) q)"
  by (cases "q = d") (auto simp: store_file_def split: option.splits inode.splits)

lemma copy_file_stays:
  "is_file (fs q) \<Longrightarrow> is_file (snd (copy n d fs) q)"
  "is_file (fs q) \<Longrightarrow> is_file (snd (copyDir es d fs) q)"
  "is_file (fs q) \<Longrightarrow> is_file (snd (copyDir_loop es d fs) q)"
proof (induction n d fs and es d fs and es d fs rule: copy_copyDir_copyDir_loop.induct)
  case (1 c dest fs)
  then show ?case by (simp add: copyFileSync_def store_file_stays)
next
  case (2 es dest fs)
  then show ?case by simp
next
  case (3 es destDir fs)
  obtain r fs1 where m: "mkdirSync destDir fs = (r, fs1)" by (cases "mkdirSync destDir fs")
  from "3.prems" have "fs q \<noteq> None" by (cases "fs q") auto
  from mkdirSync_existing [where fs = fs and q = q and p = destDir, OF this] m "3.prems"
  have q: "is_file (fs1 q)" by simp
  show ?case
  proof (cases r)
    case None
    with "3.IH" [OF m [symmetric] None] q m show ?thesis by simp
  next
    case (Some e)
    with m q show ?thesis by simp
  qed
next
  case (4 destDir fs)
  then show ?case by simp
next
  case (5 nm child es destDir fs)
  obtain r fs1 where c: "copy child (destDir @ [nm]) fs = (r, fs1)"
    by (cases "copy child (destDir @ [nm]) fs")
  from "5.IH"(1) "5.prems" c have q: "is_file (fs1 q)" by simp
  show ?case
  proof (cases r)
    case None
    with "5.IH"(2) [OF c [symmetric] None] q c show ?thesis by simp
  next
    case (Some e)
    with c q show ?thesis by simp
  qed
qed

lemma write_file_file_stays:
  "is_file (fs q) \<Longrightarrow> is_file (snd (write_file root entries f None fs) q)"
  by (auto simp: write_file_def truthy_str_def copy_file_stays
      split: sum.splits option.splits)

lemma write_files_file_stays:
  "is_file (fs q) \<Longrightarrow> is_file (snd (write_files root entries files fs) q)"
proof (induction files arbitrary: fs)
  case Nil
  then show ?case by simp
next
  case (Cons f files)
  obtain r fs1 where w: "write_file root entries f None fs = (r, fs1)"
    by (cases "write_file root entries f None fs")
  from write_file_file_stays [of fs q root entries f] Cons.prems w have q: "is_file (fs1 q)"
    by simp
  show ?case
  proof (cases r)
    case None
    with Cons.IH [of fs1] q w show ?thesis by simp
  next
    case (Some e)
    with w q show ?thesis by simp
  qed
qed

lemma write_files_has_file:
  assumes "fst (write_files root entries files fs) = None"
    and "f \<in> set files" and "map_of entries f = Some n" and "wf_node n"
    and "lookup_node n p = Some (File c)"
  shows "is_file (snd (write_files root entries files fs) (root @ dest_name f # p))"
  using assms(1,2)
proof (induction files arbitrary: fs)
  case Nil
  then show ?case by simp
next
  case (Cons g files)
  obtain r fs1 where w: "write_file root entries g None fs = (r, fs1)"
    by (cases "write_file root entries g None fs")
  with Cons.prems(1) have r: "r = None" by (cases r) auto
  from Cons.prems(1) w r have ok: "fst (write_files root entries files fs1) = None" by simp
  show ?case
  proof (cases "g = f")
    case True
    have "\<exists>m. map_of entries f = Some m \<and> tree_at fs1 (root @ [dest_name f]) m"
      using w [unfolded r True] assms(3,4) by (intro write_file_tree_at) auto
    with assms(3) have "tree_at fs1 (root @ [dest_name f]) n" by simp
    from tree_at_lookup(1) [OF assms(5) this]
    have "is_file (fs1 (root @ dest_name f # p))" by simp
    then have "is_file (snd (write_files root entries files fs1) (root @ dest_name f # p))"
      using write_files_file_stays [of fs1 "root @ dest_name f # p" root entries files] by simp
    with w r show ?thesis by simp
  next
    case False
    with Cons.prems(2) have "f \<in> set files" by simp
    from Cons.IH [OF ok this] w r show ?thesis by simp
  qed
qed

lemma materialize_has_file:
  assumes "fst (materialize root d (Some (Dir es)) fs) = None"
    and "wf_entries es" and "(f, n) \<in> set es"
    and "lookup_node n p = Some (File c)"
  shows "is_file (snd (materialize root d (Some (Dir es)) fs) (root @ dest_name f # p))"
proof -
  from materialize_ok [OF assms(1)] obtain fs1
    where m: "materialize root d (Some (Dir es)) fs = write_files root es (map fst es) fs1"
      and w: "fst (write_files root es (map fst es) fs1) = None"
    by blast
  from assms(3) have f: "f \<in> set (map fst es)" by force
  from wf_entries_lookup [OF assms(2,3)] have n: "map_of es f = Some n" "wf_node n" by simp_all
  from write_files_has_file [OF w f n assms(4)] m show ?thesis by simp
qed

text \<open>
  Claim C10. Only the entries of the template directory itself are renamed. After a
  materialisation without error, for a file \<^verbatim>\<open>_gitignore\<close> that lies at any depth inside
  an entry of the template directory, the project has a file at the same place inside
  that entry, under the name \<^verbatim>\<open>_gitignore\<close>. When no two entries of the template
  directory get the same name in the project, this file has the content of the
  template's file; and where the template has no \<^verbatim>\<open>.gitignore\<close> beside it and the disk
  had none, the project has none either. (The directories of the template list no
  name twice.)
\<close>

theorem nested_gitignore_keeps_name:
  assumes "wf_entries es"
    and "fst (materialize root d (Some (Dir es)) fs) = None"
    and "(f, n) \<in> set es"
    and "lookup_node n (p @ [''_gitignore'']) = Some (File c)"
  shows "is_file (snd (materialize root d (Some (Dir es)) fs)
                    (root @ dest_name f # p @ [''_gitignore''])) \<and>
         (distinct (map (\<lambda>e. dest_name (fst e)) es) \<longrightarrow>
            snd (materialize root d (Some (Dir es)) fs) (root @ dest_name f # p @ [''_gitignore''])
              = Some (IFile c) \<and>
            (lookup_node n (p @ [''.gitignore'']) = None \<longrightarrow>
             fs (root @ dest_name f # p @ [''.gitignore'']) = None \<longrightarrow>
               snd (materialize root d (Some (Dir es)) fs)
                 (root @ dest_name f # p @ [''.gitignore'']) = None))"
proof (intro conjI impI)
  show "is_file (snd (materialize root d (Some (Dir es)) fs)
                   (root @ dest_name f # p @ [''_gitignore'']))"
    using assms(2,1,3,4) by (rule materialize_has_file)
next
  let ?fs' = "snd (materialize root d (Some (Dir es)) fs)"
  assume dist: "distinct (map (\<lambda>e. dest_name (fst e)) es)"
  from materialize_materialized [OF assms(2) dist assms(1)] assms(3)
  have "tree_at ?fs' (root @ [dest_name f]) n"
    by (auto simp: materialized_def list_all_iff dest_name_eq)
  from tree_at_lookup(1) [OF assms(4) this]
  show "?fs' (root @ dest_name f # p @ [''_gitignore'']) = Some (IFile c)" by simp
  let ?q = "root @ dest_name f # p @ [''.gitignore'']"
  assume l: "lookup_node n (p @ [''.gitignore'']) = None" and a: "fs ?q = None"
  have "lookup_node m p' = None"
    if g: "(g, m) \<in> set es" and e: "?q = root @ dest_name g # p'" for g m p'
  proof -
    from e have "dest_name f = dest_name g" and p': "p' = p @ [''.gitignore'']" by simp_all
    from dest_name_entry_unique [OF dist assms(3) g this(1)] l p'
    show ?thesis by simp
  qed
  then have h: "\<forall>g m p'. (g, m) \<in> set es \<longrightarrow> ?q = root @ dest_name g # p' \<longrightarrow>
               lookup_node m p' = None"
    by (intro allI impI)
  have np: "\<not> prefix ?q root"
    by (rule notI, drule prefix_length_le) simp
  from a np h assms(1) show "snd (materialize root d (Some (Dir es)) fs) ?q = None"
    by (rule materialize_absent)
qed

theorem nested_gitignore_keeps_name_witness:
  "snd (materialize [''home'', ''my-app''] ''template-react-ts'' (Some (Dir sample_entries))
          sample_fs) [''home'', ''my-app'', ''src'', ''_gitignore''] = Some (IFile ''dist'') \<and>
   snd (materialize [''home'', ''my-app''] ''template-react-ts'' (Some (Dir sample_entries))
          sample_fs) [''home'', ''my-app'', ''src'', ''.gitignore''] = None"
proof -
  let ?n = "Dir [(''_gitignore'', File ''dist''), (''main.ts'', File ''render()'')]"
  have wf: "wf_entries sample_entries" by (simp add: sample_entries_def)
  have dist: "distinct (map (\<lambda>e. dest_name (fst e)) sample_entries)"
    by (simp add: sample_entries_def dest_name_eq)
  have names: "\<forall>e\<in>set sample_entries. renameFiles (fst e) \<noteq> Inherited"
    by (simp add: sample_entries_def renameFiles_def object_prototype_keys_def)
  have ok: "fst (materialize [''home'', ''my-app''] ''template-react-ts''
                   (Some (Dir sample_entries)) sample_fs) = None"
    using sample_fs_fresh sample_fs_dirs names dist wf by (rule materialize_fresh)
  have m: "(''src'', ?n) \<in> set sample_entries" by (simp add: sample_entries_def)
  have l: "lookup_node ?n ([] @ [''_gitignore'']) = Some (File ''dist'')" by simp
  have l': "lookup_node ?n ([] @ [''.gitignore'']) = None" by simp
  have a: "sample_fs ([''home'', ''my-app''] @ dest_name ''src'' # [] @ [''.gitignore'']) = None"
    by (simp add: sample_fs_def)
  from nested_gitignore_keeps_name [OF wf ok m l] dist l' a
  show ?thesis by (simp add: dest_name_eq)
qed

end
